theory Spec2Isabelle
  imports Complex_Main "HOL-Library.Word" "HOL-Library.Signed_Division"
begin

section \<open>ioping: the timed request loop and its running statistics\<close>

text \<open>
  The development embeds lines 39--47 (\<^verbatim>\<open>now\<close>), 276--280 (\<^verbatim>\<open>sig_exit\<close>) and
  353--438 (the body of \<^verbatim>\<open>main\<close> from the initialisation of the accumulators to
  \<^verbatim>\<open>return 0\<close>) of \<^verbatim>\<open>ioping.c\<close>. Option parsing, the lookup of the file system
  and the opening of the target happen before line 353; their results are the
  global variables collected in the record \<open>config\<close>.
\<close>

subsection \<open>Machine types\<close>

text \<open>
  \<^verbatim>\<open>long long\<close>, \<^verbatim>\<open>ssize_t\<close>, \<^verbatim>\<open>time_t\<close> and \<^verbatim>\<open>suseconds_t\<close> are 64-bit words,
  \<^verbatim>\<open>int\<close> is a 32-bit word; both are read as two's complement (\<open>sint\<close>, \<open><s\<close>,
  \<open>\<le>s\<close>) and their arithmetic wraps around. A signed overflow is undefined in C;
  the statements that depend on the value of \<^verbatim>\<open>request++\<close> or of
  \<^verbatim>\<open>this_time * this_time\<close> say within which bounds they hold.
\<close>

type_synonym llong = "64 word"
type_synonym cint = "32 word"

definition LLONG_MAX :: llong where
  "LLONG_MAX = 0x7FFFFFFFFFFFFFFF"

definition LLONG_MIN :: llong where
  "LLONG_MIN = 0x8000000000000000"

definition INT_MIN :: cint where
  "INT_MIN = 0x80000000"

text \<open>\<^verbatim>\<open>EINTR\<close> of \<^verbatim>\<open><errno.h>\<close> on Linux.\<close>

definition EINTR :: cint where
  "EINTR = 4"

text \<open>
  A \<^verbatim>\<open>double\<close> is a real number, an infinity or a NaN. The special values follow
  IEEE 754 in its default non-trapping mode, which is what decides the behaviour of a
  division by zero. The operations \<open>fadd\<close>, \<open>fmul\<close>, \<open>fdiv\<close> and \<open>fsqrt\<close> below are those
  of exact arithmetic: a finite result is the exact real. The sums the loop keeps are
  sums of integers, which binary64 arithmetic computes exactly while they stay below
  \<open>2\<^sup>5\<^sup>3\<close> in absolute value; the rounding of binary64 is added further down
  (\<open>add64\<close>, \<open>mul64\<close>, \<open>div64\<close>, \<open>sqrt64\<close> and the definitions that use them), for the
  statements that depend on it.
\<close>

datatype double = Fin real | PInf | NInf | NaN

fun fneg :: "double \<Rightarrow> double" where
  "fneg (Fin a) = Fin (- a)"
| "fneg PInf = NInf"
| "fneg NInf = PInf"
| "fneg NaN = NaN"

fun fadd :: "double \<Rightarrow> double \<Rightarrow> double" where
  "fadd (Fin a) (Fin b) = Fin (a + b)"
| "fadd NaN y = NaN"
| "fadd x NaN = NaN"
| "fadd PInf NInf = NaN"
| "fadd NInf PInf = NaN"
| "fadd PInf y = PInf"
| "fadd NInf y = NInf"
| "fadd x PInf = PInf"
| "fadd x NInf = NInf"

definition fsub :: "double \<Rightarrow> double \<Rightarrow> double" where
  "fsub x y = fadd x (fneg y)"

text \<open>An infinity with the sign of a non-zero real.\<close>

definition inf_of_sign :: "real \<Rightarrow> double" where
  "inf_of_sign a = (if 0 < a then PInf else NInf)"

fun fmul :: "double \<Rightarrow> double \<Rightarrow> double" where
  "fmul (Fin a) (Fin b) = Fin (a * b)"
| "fmul NaN y = NaN"
| "fmul x NaN = NaN"
| "fmul (Fin a) PInf = (if a = 0 then NaN else inf_of_sign a)"
| "fmul (Fin a) NInf = (if a = 0 then NaN else inf_of_sign (- a))"
| "fmul PInf (Fin b) = (if b = 0 then NaN else inf_of_sign b)"
| "fmul NInf (Fin b) = (if b = 0 then NaN else inf_of_sign (- b))"
| "fmul PInf PInf = PInf"
| "fmul NInf NInf = PInf"
| "fmul PInf NInf = NInf"
| "fmul NInf PInf = NInf"

fun fdiv :: "double \<Rightarrow> double \<Rightarrow> double" where
  "fdiv (Fin a) (Fin b) =
     (if b = 0 then (if a = 0 then NaN else inf_of_sign a) else Fin (a / b))"
| "fdiv NaN y = NaN"
| "fdiv x NaN = NaN"
| "fdiv (Fin a) y = Fin 0"
| "fdiv PInf (Fin b) = (if 0 \<le> b then PInf else NInf)"
| "fdiv NInf (Fin b) = (if 0 \<le> b then NInf else PInf)"
| "fdiv x y = NaN"

fun fsqrt :: "double \<Rightarrow> double" where
  "fsqrt (Fin a) = (if a < 0 then NaN else Fin (sqrt a))"
| "fsqrt PInf = PInf"
| "fsqrt NInf = NaN"
| "fsqrt NaN = NaN"

text \<open>The implicit conversions of an integer operand to \<^verbatim>\<open>double\<close>.\<close>

definition of_llong :: "llong \<Rightarrow> double" where
  "of_llong x = Fin (real_of_int (sint x))"

definition of_cint :: "cint \<Rightarrow> double" where
  "of_cint x = Fin (real_of_int (sint x))"

subsection \<open>Errors, effects and outcomes\<close>

text \<open>
  \<open>Err status msg\<close> is a call \<^verbatim>\<open>err(status, msg)\<close>: the message goes to the standard
  error stream and the process exits with the status at once. \<open>Sigfpe\<close> is the trap of
  an integer remainder whose divisor is zero.
\<close>

datatype fatal = Err cint string | Sigfpe

text \<open>
  The calls the loop makes on the outside world, with their arguments: the four
  \<^verbatim>\<open>printf\<close>s of lines 390, 398, 430--431 and 433, and \<^verbatim>\<open>usleep\<close>. The parameter of
  \<^verbatim>\<open>usleep\<close> is a \<^verbatim>\<open>useconds_t\<close>, an unsigned 32-bit integer: the call receives the
  \<^verbatim>\<open>long long\<close> interval reduced modulo \<open>2\<^sup>3\<^sup>2\<close>.
\<close>

datatype effect =
    Printf_request llong string string string cint double
  | Printf_raw llong double llong double
  | Printf_header string
  | Printf_completed cint double
  | Printf_summary double double double double
  | Usleep "32 word"

datatype 'a outcome = Died fatal "effect list" | Done 'a "effect list"

fun emit :: "effect list \<Rightarrow> 'a outcome \<Rightarrow> 'a outcome" where
  "emit es (Died f out) = Died f (es @ out)"
| "emit es (Done x out) = Done x (es @ out)"

fun effects :: "'a outcome \<Rightarrow> effect list" where
  "effects (Died f out) = out"
| "effects (Done x out) = out"

subsection \<open>The clock\<close>

record timeval =
  tv_sec :: llong
  tv_usec :: llong

text \<open>
  \<^verbatim>\<open>now\<close>, lines 39--47. Its argument is what \<^verbatim>\<open>gettimeofday\<close> does at this call:
  \<open>None\<close> when it returns non-zero, the time it stores otherwise.
\<close>

definition now :: "timeval option \<Rightarrow> fatal + llong" where
  "now g = (case g of
      None \<Rightarrow> Inl (Err 1 ''gettimeofday failed'')
    | Some tv \<Rightarrow> Inr (tv_sec tv * 1000000 + tv_usec tv))"

subsection \<open>Configuration, environment and variables\<close>

text \<open>The globals of lines 163--182 that the loop reads, as set before line 353;
  \<open>deadline\<close> is the absolute time of line 349.\<close>

record config =
  path :: string
  fstype :: string
  device :: string
  quiet :: cint
  period :: cint
  cached :: cint
  interval :: llong
  deadline :: llong
  count :: cint

text \<open>
  What the outside world does during one pass through the loop body, in the order
  the code asks for it. A field is read only if the code reaches the call.
\<close>

record iteration =
  sigint_top :: bool \<comment> \<open>SIGINT was delivered before line 360 reads \<^verbatim>\<open>exiting\<close>\<close>
  tv_deadline :: "timeval option" \<comment> \<open>\<^verbatim>\<open>gettimeofday\<close> at line 364\<close>
  fadvise_ret :: cint \<comment> \<open>\<^verbatim>\<open>posix_fadvise\<close> at line 370\<close>
  tv_before :: "timeval option" \<comment> \<open>\<^verbatim>\<open>gettimeofday\<close> at line 376\<close>
  pread_ret :: llong \<comment> \<open>\<^verbatim>\<open>pread\<close> at line 377\<close>
  pread_errno :: cint \<comment> \<open>\<^verbatim>\<open>errno\<close> after it\<close>
  tv_after :: "timeval option" \<comment> \<open>\<^verbatim>\<open>gettimeofday\<close> at line 380\<close>
  sigint_body :: bool \<comment> \<open>SIGINT was delivered in the body, before line 413\<close>

record env =
  clock_start :: "timeval option" \<comment> \<open>\<^verbatim>\<open>gettimeofday\<close> at line 358\<close>
  iters :: "iteration list"
  clock_end :: "timeval option" \<comment> \<open>\<^verbatim>\<open>gettimeofday\<close> at line 417\<close>

text \<open>The variables the loop updates: the globals \<^verbatim>\<open>request\<close> and \<^verbatim>\<open>exiting\<close> and
  the locals of \<^verbatim>\<open>main\<close> that are initialised at lines 353--358.\<close>

record vars =
  request :: cint
  exiting :: cint
  part_min :: llong
  part_max :: llong
  time_min :: llong
  time_max :: llong
  part_sum :: double
  part_sum2 :: double
  time_sum :: double
  time_sum2 :: double
  time_total :: llong

text \<open>The variables at \<^verbatim>\<open>return 0\<close>, with the two locals assigned at lines 426--427.\<close>

record final =
  locals :: vars
  time_avg :: double
  time_mdev :: double

subsection \<open>The code\<close>

text \<open>\<^verbatim>\<open>sig_exit\<close>, lines 276--280: the handler of SIGINT.\<close>

definition sig_exit :: "vars \<Rightarrow> vars" where
  "sig_exit s = s\<lparr>exiting := 1\<rparr>"

text \<open>Lines 353--358; \<open>t\<close> is the result of \<^verbatim>\<open>now()\<close> at line 358. The global
  \<^verbatim>\<open>exiting\<close> still has the value 0 of its declaration (line 184); a SIGINT that
  arrives before the loop is the \<open>sigint_top\<close> of the first pass.\<close>

definition init :: "llong \<Rightarrow> vars" where
  "init t = \<lparr>request = 0, exiting = 0,
     part_min = LLONG_MAX, part_max = LLONG_MIN,
     time_min = LLONG_MAX, time_max = LLONG_MIN,
     part_sum = Fin 0, part_sum2 = Fin 0, time_sum = Fin 0, time_sum2 = Fin 0,
     time_total = t\<rparr>"

text \<open>Lines 382--387.\<close>

definition record_sample :: "llong \<Rightarrow> vars \<Rightarrow> vars" where
  "record_sample this_time s =
     (let s = s\<lparr>part_sum := fadd (part_sum s) (of_llong this_time)\<rparr>;
          s = s\<lparr>part_sum2 := fadd (part_sum2 s) (of_llong (this_time * this_time))\<rparr>;
          s = (if this_time <s part_min s then s\<lparr>part_min := this_time\<rparr> else s);
          s = (if part_max s <s this_time then s\<lparr>part_max := this_time\<rparr> else s)
      in s)"

text \<open>Lines 402--407, and again lines 419--424: the window is added to the run.\<close>

definition absorb_part :: "vars \<Rightarrow> vars" where
  "absorb_part s =
     (let s = s\<lparr>time_sum := fadd (time_sum s) (part_sum s)\<rparr>;
          s = s\<lparr>time_sum2 := fadd (time_sum2 s) (part_sum2 s)\<rparr>;
          s = (if part_min s <s time_min s then s\<lparr>time_min := part_min s\<rparr> else s);
          s = (if time_max s <s part_max s then s\<lparr>time_max := part_max s\<rparr> else s)
      in s)"

text \<open>Lines 395--410, the body of the conditional of line 394.\<close>

definition flush_window :: "config \<Rightarrow> vars \<Rightarrow> vars \<times> effect list" where
  "flush_window c s =
     (let part_avg = fdiv (part_sum s) (of_cint (period c));
          part_mdev = fsqrt (fsub (fdiv (part_sum2 s) (of_cint (period c)))
                                  (fmul part_avg part_avg));
          es = [Printf_raw (part_min s) part_avg (part_max s) part_mdev];
          s = absorb_part s;
          s = s\<lparr>part_min := LLONG_MAX, part_max := LLONG_MIN,
                part_sum := Fin 0, part_sum2 := Fin 0\<rparr>
      in (s, es))"

text \<open>
  The operator \<^verbatim>\<open>%\<close> on \<^verbatim>\<open>int\<close>: the remainder of the division that truncates towards
  zero. A zero divisor traps, and so does \<^verbatim>\<open>INT_MIN % -1\<close> (undefined in C, the
  same trap on x86).
\<close>

definition c_rem :: "cint \<Rightarrow> cint \<Rightarrow> fatal + cint" where
  "c_rem a b =
     (if b = 0 \<or> (a = INT_MIN \<and> b = - 1) then Inl Sigfpe
      else Inr (word_of_int (sint a smod sint b)))"

text \<open>The condition of line 394, \<^verbatim>\<open>period && request % period == 0\<close>.\<close>

definition window_due :: "config \<Rightarrow> vars \<Rightarrow> fatal + bool" where
  "window_due c s =
     (if period c = 0 then Inr False
      else (case c_rem (request s) (period c) of
              Inl f \<Rightarrow> Inl f
            | Inr r \<Rightarrow> Inr (r = 0)))"

text \<open>The three tests of lines 360--365, after a SIGINT delivered before them:
  \<open>Inr True\<close> leaves the loop.\<close>

definition check_stop :: "config \<Rightarrow> vars \<Rightarrow> iteration \<Rightarrow> fatal + bool" where
  "check_stop c s it =
     (if exiting s \<noteq> 0 then Inr True
      else if count c \<noteq> 0 \<and> count c \<le>s request s then Inr True
      else if deadline c \<noteq> 0 then
        (case now (tv_deadline it) of
           Inl f \<Rightarrow> Inl f
         | Inr t \<Rightarrow> Inr (deadline c \<le>s t))
      else Inr False)"

datatype step = Continue vars "effect list" | Break vars | Fatal fatal "effect list"

text \<open>Lines 367--414, one pass through the body once the tests have let it in.\<close>

definition body :: "config \<Rightarrow> vars \<Rightarrow> iteration \<Rightarrow> step" where
  "body c s0 it =
     (let s = s0\<lparr>request := request s0 + 1\<rparr> in
      if cached c = 0 \<and> fadvise_ret it \<noteq> 0 then Fatal (Err 1 ''fadvise failed'') []
      else (case now (tv_before it) of
              Inl f \<Rightarrow> Fatal f []
            | Inr t0 \<Rightarrow>
        if pread_ret it <s 0 \<and> pread_errno it \<noteq> EINTR then Fatal (Err 1 ''read failed'') []
        else (case now (tv_after it) of
                Inl f \<Rightarrow> Fatal f []
              | Inr t1 \<Rightarrow>
          (let this_time = t1 - t0;
               s = record_sample this_time s;
               es1 = (if quiet c = 0
                      then [Printf_request (pread_ret it) (path c) (fstype c) (device c)
                              (request s) (fdiv (of_llong this_time) (Fin 1000))]
                      else [])
           in (case window_due c s of
                 Inl f \<Rightarrow> Fatal f es1
               | Inr due \<Rightarrow>
             (let (s, es2) = (if due then flush_window c s else (s, []));
                  s = (if sigint_body it then sig_exit s else s);
                  es3 = (if exiting s = 0 then [Usleep (ucast (interval c))] else [])
              in Continue s (es1 @ es2 @ es3)))))))"

text \<open>One evaluation of the loop condition, the tests and the body.\<close>

definition iter :: "config \<Rightarrow> vars \<Rightarrow> iteration \<Rightarrow> step" where
  "iter c s0 it =
     (let s = (if sigint_top it then sig_exit s0 else s0) in
      case check_stop c s it of
        Inl f \<Rightarrow> Fatal f []
      | Inr True \<Rightarrow> Break s
      | Inr False \<Rightarrow> body c s it)"

text \<open>
  The loop of lines 360--415 over the behaviour of the outside world. The list is
  finite: \<open>None\<close> says that the loop is still running when the list ends.
\<close>

fun loop :: "config \<Rightarrow> vars \<Rightarrow> iteration list \<Rightarrow> vars outcome option" where
  "loop c s [] = None"
| "loop c s (it # its) =
     (case iter c s it of
        Fatal f es \<Rightarrow> Some (Died f es)
      | Break s' \<Rightarrow> Some (Done s' [])
      | Continue s' es \<Rightarrow> map_option (emit es) (loop c s' its))"

text \<open>Lines 429--436: the summary, unless \<^verbatim>\<open>quiet\<close> is set.\<close>

definition report :: "config \<Rightarrow> final \<Rightarrow> effect list" where
  "report c st =
     (if quiet c = 0
      then [Printf_header (path c),
            Printf_completed (request (locals st))
              (fdiv (of_llong (time_total (locals st))) (Fin 1000)),
            Printf_summary (fdiv (of_llong (time_min (locals st))) (Fin 1000))
                           (fdiv (time_avg st) (Fin 1000))
                           (fdiv (of_llong (time_max (locals st))) (Fin 1000))
                           (fdiv (time_mdev st) (Fin 1000))]
      else [])"

text \<open>Lines 417--438.\<close>

definition finalize :: "config \<Rightarrow> vars \<Rightarrow> timeval option \<Rightarrow> final outcome" where
  "finalize c s0 g =
     (case now g of
        Inl f \<Rightarrow> Died f []
      | Inr t \<Rightarrow>
        (let s = s0\<lparr>time_total := t - time_total s0\<rparr>;
             s = absorb_part s;
             avg = fdiv (time_sum s) (of_cint (request s));
             mdev = fsqrt (fsub (fdiv (time_sum2 s) (of_cint (request s))) (fmul avg avg));
             st = \<lparr>locals = s, time_avg = avg, time_mdev = mdev\<rparr>
         in Done st (report c st)))"

text \<open>Lines 353--438 of \<^verbatim>\<open>main\<close>. \<open>Done\<close> is \<^verbatim>\<open>return 0\<close>.\<close>

definition main :: "config \<Rightarrow> env \<Rightarrow> final outcome option" where
  "main c e =
     (case now (clock_start e) of
        Inl f \<Rightarrow> Some (Died f [])
      | Inr t \<Rightarrow>
        (case loop c (init t) (iters e) of
           None \<Rightarrow> None
         | Some (Died f es) \<Rightarrow> Some (Died f es)
         | Some (Done s es) \<Rightarrow> Some (emit es (finalize c s (clock_end e)))))"

text \<open>The exit status of the process.\<close>

fun exit_status :: "'a outcome \<Rightarrow> cint option" where
  "exit_status (Died (Err st msg) out) = Some st"
| "exit_status (Died Sigfpe out) = None"
| "exit_status (Done x out) = Some 0"

subsection \<open>Quantities the statements speak about\<close>

text \<open>The latency that lines 376--380 measure in an iteration whose clock readings
  succeed: the difference of the two readings, in microseconds.\<close>

definition this_time_of :: "iteration \<Rightarrow> llong" where
  "this_time_of it =
     (case now (tv_before it) of
        Inl f \<Rightarrow> 0
      | Inr t0 \<Rightarrow> (case now (tv_after it) of Inl f \<Rightarrow> 0 | Inr t1 \<Rightarrow> t1 - t0))"

text \<open>
  The run statistics as they would stand if the window were added to the run now
  (lines 419--424): sum, sum of squares, minimum and maximum of the run.
\<close>

definition totals :: "vars \<Rightarrow> double \<times> double \<times> llong \<times> llong" where
  "totals s = (let r = absorb_part s in (time_sum r, time_sum2 r, time_min r, time_max r))"

text \<open>One accumulator that takes every sample, with no window in between.\<close>

fun add_sample :: "llong \<Rightarrow> double \<times> double \<times> llong \<times> llong \<Rightarrow> double \<times> double \<times> llong \<times> llong" where
  "add_sample t (a, b, mn, mx) =
     (fadd a (of_llong t), fadd b (of_llong (t * t)),
      (if t <s mn then t else mn), (if mx <s t then t else mx))"

subsection \<open>A run of three requests\<close>

text \<open>Three reads that take 10, 20 and 30 microseconds, with \<^verbatim>\<open>-c 3 -p 3\<close>; the fourth
  pass stops at the request count.\<close>

definition fixture_iteration :: "llong \<Rightarrow> llong \<Rightarrow> iteration" where
  "fixture_iteration a b = \<lparr>sigint_top = False, tv_deadline = None, fadvise_ret = 0,
     tv_before = Some \<lparr>tv_sec = 0, tv_usec = a\<rparr>, pread_ret = 512, pread_errno = 0,
     tv_after = Some \<lparr>tv_sec = 0, tv_usec = b\<rparr>, sigint_body = False\<rparr>"

definition fixture_config :: config where
  "fixture_config = \<lparr>path = ''f'', fstype = ''ext4'', device = ''/dev/sda'', quiet = 0,
     period = 3, cached = 0, interval = 1000000, deadline = 0, count = 3\<rparr>"

definition fixture_env :: env where
  "fixture_env = \<lparr>clock_start = Some \<lparr>tv_sec = 0, tv_usec = 0\<rparr>,
     iters = [fixture_iteration 100 110, fixture_iteration 200 220,
              fixture_iteration 300 330, fixture_iteration 400 440],
     clock_end = Some \<lparr>tv_sec = 0, tv_usec = 500\<rparr>\<rparr>"

definition fixture_final :: final where
  "fixture_final = \<lparr>locals = \<lparr>request = 3, exiting = 0,
       part_min = LLONG_MAX, part_max = LLONG_MIN, time_min = 10, time_max = 30,
       part_sum = Fin 0, part_sum2 = Fin 0, time_sum = Fin 60, time_sum2 = Fin 1400,
       time_total = 500\<rparr>,
     time_avg = Fin 20, time_mdev = Fin (sqrt (200 / 3))\<rparr>"

definition fixture_out :: "effect list" where
  "fixture_out =
     [Printf_request 512 ''f'' ''ext4'' ''/dev/sda'' 1 (Fin (1 / 100)), Usleep 1000000,
      Printf_request 512 ''f'' ''ext4'' ''/dev/sda'' 2 (Fin (1 / 50)), Usleep 1000000,
      Printf_request 512 ''f'' ''ext4'' ''/dev/sda'' 3 (Fin (3 / 100)),
      Printf_raw 10 (Fin 20) 30 (Fin (sqrt (200 / 3))), Usleep 1000000,
      Printf_header ''f'', Printf_completed 3 (Fin (1 / 2)),
      Printf_summary (Fin (1 / 100)) (Fin (1 / 50)) (Fin (3 / 100))
        (Fin (sqrt (200 / 3) / 1000))]"

text \<open>Two states of the loop that stand for the same run so far: the statistics they
  would report and the variables the three tests read agree.\<close>

definition same_run :: "vars \<Rightarrow> vars \<Rightarrow> bool" where
  "same_run s s' \<longleftrightarrow>
     totals s = totals s' \<and> request s = request s' \<and> exiting s = exiting s' \<and>
     time_total s = time_total s'"

text \<open>The variables and the output after the loop has gone through the body for every
  pass of a list; \<open>None\<close> when one of the passes leaves the loop or is fatal.\<close>

fun advance :: "config \<Rightarrow> vars \<Rightarrow> iteration list \<Rightarrow> (vars \<times> effect list) option" where
  "advance c s [] = Some (s, [])"
| "advance c s (it # its) =
     (case iter c s it of
        Continue s' es \<Rightarrow> map_option (\<lambda>(sf, es'). (sf, es @ es')) (advance c s' its)
      | Break s' \<Rightarrow> None
      | Fatal f es \<Rightarrow> None)"

text \<open>The lines of the final summary (lines 430--435).\<close>

fun summary_line :: "effect \<Rightarrow> bool" where
  "summary_line (Printf_header p) = True"
| "summary_line (Printf_completed n t) = True"
| "summary_line (Printf_summary mn avg mx mdev) = True"
| "summary_line x = False"

text \<open>A read fails with \<^verbatim>\<open>EIO\<close> in the second pass, after one sample.\<close>

definition failed_read :: iteration where
  "failed_read = (fixture_iteration 200 220)\<lparr>pread_ret := - 1, pread_errno := 5\<rparr>"

definition failed_read_env :: env where
  "failed_read_env = \<lparr>clock_start = Some \<lparr>tv_sec = 0, tv_usec = 0\<rparr>,
     iters = [fixture_iteration 100 110] @ failed_read # [fixture_iteration 300 330],
     clock_end = Some \<lparr>tv_sec = 0, tv_usec = 500\<rparr>\<rparr>"

text \<open>The variables and the output after the first pass of that run.\<close>

definition one_sample :: vars where
  "one_sample = \<lparr>request = 1, exiting = 0, part_min = 10, part_max = 10,
     time_min = LLONG_MAX, time_max = LLONG_MIN,
     part_sum = Fin 10, part_sum2 = Fin 100, time_sum = Fin 0, time_sum2 = Fin 0,
     time_total = 0\<rparr>"

definition one_sample_out :: "effect list" where
  "one_sample_out =
     [Printf_request 512 ''f'' ''ext4'' ''/dev/sda'' 1 (Fin (1 / 100)), Usleep 1000000]"

text \<open>SIGINT arrives before the first test of the loop condition.\<close>

definition interrupted_env :: env where
  "interrupted_env = \<lparr>clock_start = Some \<lparr>tv_sec = 0, tv_usec = 0\<rparr>,
     iters = [(fixture_iteration 100 110)\<lparr>sigint_top := True\<rparr>],
     clock_end = Some \<lparr>tv_sec = 0, tv_usec = 500\<rparr>\<rparr>"

definition interrupted_final :: final where
  "interrupted_final = \<lparr>locals = \<lparr>request = 0, exiting = 1,
       part_min = LLONG_MAX, part_max = LLONG_MIN, time_min = LLONG_MAX, time_max = LLONG_MIN,
       part_sum = Fin 0, part_sum2 = Fin 0, time_sum = Fin 0, time_sum2 = Fin 0,
       time_total = 500\<rparr>,
     time_avg = NaN, time_mdev = NaN\<rparr>"

text \<open>A latency in microseconds, as a real number.\<close>

definition usec :: "llong \<Rightarrow> real" where
  "usec t = real_of_int (sint t)"

text \<open>Mean and population standard deviation of a list of numbers, the latter from the
  sum and the sum of squares: \<open>sqrt (sum_of_squares / n - (sum / n)\<^sup>2)\<close>.\<close>

definition mean :: "real list \<Rightarrow> real" where
  "mean xs = sum_list xs / real (length xs)"

definition population_sd :: "real list \<Rightarrow> real" where
  "population_sd xs = sqrt ((\<Sum>x\<leftarrow>xs. x\<^sup>2) / real (length xs) - (mean xs)\<^sup>2)"

text \<open>The latencies of the first \<open>n\<close> passes of a run.\<close>

definition samples :: "env \<Rightarrow> nat \<Rightarrow> llong list" where
  "samples e n = map this_time_of (take n (iters e))"

text \<open>A latency whose square at line 383 does not overflow \<^verbatim>\<open>long long\<close>: up to about
  3037 seconds in absolute value.\<close>

definition square_fits :: "llong \<Rightarrow> bool" where
  "square_fits t \<longleftrightarrow> (sint t)\<^sup>2 < 2 ^ 63"

text \<open>The Bessel-corrected standard deviation of a sample, which the code does not use.\<close>

definition sample_sd :: "real list \<Rightarrow> real" where
  "sample_sd xs = sqrt ((\<Sum>x\<leftarrow>xs. (x - mean xs)\<^sup>2) / (real (length xs) - 1))"

text \<open>The raw statistics line of a window (line 398) and the line of a request
  (line 390).\<close>

fun raw_line :: "effect \<Rightarrow> bool" where
  "raw_line (Printf_raw mn avg mx mdev) = True"
| "raw_line x = False"

fun request_line :: "effect \<Rightarrow> bool" where
  "request_line (Printf_request n p f d r t) = True"
| "request_line x = False"

text \<open>A pass in which SIGINT interrupts the read: \<^verbatim>\<open>pread\<close> returns -1 with \<^verbatim>\<open>EINTR\<close>
  after 20 microseconds, and the handler has set \<^verbatim>\<open>exiting\<close>.\<close>

definition interrupted_read :: iteration where
  "interrupted_read =
     (fixture_iteration 200 220)\<lparr>pread_ret := - 1, pread_errno := 4, sigint_body := True\<rparr>"

text \<open>A pass in which every test of lines 360--365 would stop the loop and
  \<^verbatim>\<open>gettimeofday\<close> would fail: SIGINT has arrived, so only the first test is made.\<close>

definition stopping_pass :: iteration where
  "stopping_pass = (fixture_iteration 400 440)\<lparr>sigint_top := True, tv_deadline := None\<rparr>"

text \<open>The variables of the run of three requests when its loop is left.\<close>

definition fixture_final_vars :: vars where
  "fixture_final_vars = \<lparr>request = 3, exiting = 0,
     part_min = LLONG_MAX, part_max = LLONG_MIN, time_min = 10, time_max = 30,
     part_sum = Fin 0, part_sum2 = Fin 0, time_sum = Fin 60, time_sum2 = Fin 1400,
     time_total = 0\<rparr>"

text \<open>A pass whose clock reading at line 364 is 400 microseconds.\<close>

definition deadline_pass :: iteration where
  "deadline_pass = (fixture_iteration 400 440)\<lparr>tv_deadline := Some \<lparr>tv_sec = 0, tv_usec = 400\<rparr>\<rparr>"

text \<open>The human-readable lines: the line of a request and the lines of the summary.\<close>

definition human_line :: "effect \<Rightarrow> bool" where
  "human_line x \<longleftrightarrow> request_line x \<or> summary_line x"

text \<open>An outcome and a step with their effects rewritten.\<close>

fun map_effects :: "(effect list \<Rightarrow> effect list) \<Rightarrow> 'a outcome \<Rightarrow> 'a outcome" where
  "map_effects f (Died x out) = Died x (f out)"
| "map_effects f (Done x out) = Done x (f out)"

fun map_step :: "(effect list \<Rightarrow> effect list) \<Rightarrow> step \<Rightarrow> step" where
  "map_step f (Continue s es) = Continue s (f es)"
| "map_step f (Break s) = Break s"
| "map_step f (Fatal x es) = Fatal x (f es)"

text \<open>The final variables of the run of three requests without a window period.\<close>

definition no_period_final :: final where
  "no_period_final = \<lparr>locals = \<lparr>request = 3, exiting = 0,
       part_min = 10, part_max = 30, time_min = 10, time_max = 30,
       part_sum = Fin 60, part_sum2 = Fin 1400, time_sum = Fin 60, time_sum2 = Fin 1400,
       time_total = 500\<rparr>,
     time_avg = Fin 20, time_mdev = Fin (sqrt (200 / 3))\<rparr>"

text \<open>The statistics of the window, as \<open>totals\<close> are those of the run.\<close>

definition part_totals :: "vars \<Rightarrow> double \<times> double \<times> llong \<times> llong" where
  "part_totals s = (part_sum s, part_sum2 s, part_min s, part_max s)"

text \<open>The raw statistics line of line 398 for a window with the given statistics.\<close>

fun raw_stats :: "cint \<Rightarrow> double \<times> double \<times> llong \<times> llong \<Rightarrow> effect" where
  "raw_stats n (a, b, mn, mx) =
     Printf_raw mn (fdiv a (of_cint n)) mx
       (fsqrt (fsub (fdiv b (of_cint n)) (fmul (fdiv a (of_cint n)) (fdiv a (of_cint n)))))"

text \<open>The samples of the window that is open after the samples \<open>xs\<close>, for a period
  \<open>p\<close>: those since the last multiple of \<open>p\<close>.\<close>

definition window_of :: "nat \<Rightarrow> 'a list \<Rightarrow> 'a list" where
  "window_of p xs = drop (length xs - length xs mod p) xs"

subsection \<open>Binary64 arithmetic\<close>

text \<open>
  Where a statement depends on how a \<^verbatim>\<open>double\<close> rounds, the operations are those of
  IEEE 754 binary64 in the default rounding mode: the result is the exact result rounded
  to the nearest number with a significand of 53 bits, a tie going to the even
  significand. Below \<open>2\<^sup>-\<^sup>1\<^sup>0\<^sup>2\<^sup>2\<close> the numbers are \<open>2\<^sup>-\<^sup>1\<^sup>0\<^sup>7\<^sup>4\<close> apart, and a rounded result of
  magnitude \<open>2\<^sup>1\<^sup>0\<^sup>2\<^sup>4\<close> or more is an infinity. Every operation of the source is rounded
  once, to binary64 (no extended precision and no fused multiply-add, as on x86-64);
  the sign of zero is not kept.
\<close>

text \<open>The nearest integer, a tie going to the even one.\<close>

definition round_even :: "real \<Rightarrow> int" where
  "round_even y =
     (let f = \<lfloor>y\<rfloor> in
      if y - of_int f < 1 / 2 then f
      else if 1 / 2 < y - of_int f then f + 1
      else if even f then f else f + 1)"

definition pow2 :: "int \<Rightarrow> real" where
  "pow2 e = (if 0 \<le> e then 2 ^ nat e else 1 / 2 ^ nat (- e))"

text \<open>The exponent of the unit in the last place of the binary64 numbers around a
  non-zero real.\<close>

definition ulp_exp :: "real \<Rightarrow> int" where
  "ulp_exp x = max (\<lfloor>log 2 \<bar>x\<bar>\<rfloor> - 52) (- 1074)"

definition rnd :: "real \<Rightarrow> real" where
  "rnd x = (if x = 0 then 0
            else of_int (round_even (x / pow2 (ulp_exp x))) * pow2 (ulp_exp x))"

definition to_double :: "real \<Rightarrow> double" where
  "to_double x = (if 2 ^ 1024 \<le> \<bar>rnd x\<bar> then inf_of_sign x else Fin (rnd x))"

text \<open>The rounding of the exact result of an operation.\<close>

fun round64 :: "double \<Rightarrow> double" where
  "round64 (Fin a) = to_double a"
| "round64 PInf = PInf"
| "round64 NInf = NInf"
| "round64 NaN = NaN"


definition sub64 :: "double \<Rightarrow> double \<Rightarrow> double" where
  "sub64 x y = round64 (fsub x y)"

definition mul64 :: "double \<Rightarrow> double \<Rightarrow> double" where
  "mul64 x y = round64 (fmul x y)"

definition div64 :: "double \<Rightarrow> double \<Rightarrow> double" where
  "div64 x y = round64 (fdiv x y)"

definition sqrt64 :: "double \<Rightarrow> double" where
  "sqrt64 x = round64 (fsqrt x)"


subsection \<open>The code with binary64 arithmetic\<close>

text \<open>The same lines of \<^verbatim>\<open>ioping.c\<close> with every operation on a \<^verbatim>\<open>double\<close> rounded to
  binary64; the tests, the integer arithmetic and the effects are those of the
  definitions above.\<close>














subsection \<open>Binary64 runs and runs in exact arithmetic\<close>

text \<open>The variables without the four sums: what the tests of the loop read, and the
  minima and maxima.\<close>

definition forget_sums :: "vars \<Rightarrow> vars" where
  "forget_sums s = s\<lparr>part_sum := Fin 0, part_sum2 := Fin 0, time_sum := Fin 0, time_sum2 := Fin 0\<rparr>"

text \<open>
  The four sums are integers, and they stay below \<open>2\<^sup>5\<^sup>3\<close> in absolute value, where
  binary64 addition of integers is exact, as long as the squares of the latencies still
  to come add up to at most \<open>K\<close>.
\<close>

definition exact_sums :: "vars \<Rightarrow> int \<Rightarrow> bool" where
  "exact_sums s K \<longleftrightarrow>
     (\<exists>A A' B B'. part_sum s = Fin (of_int A) \<and> time_sum s = Fin (of_int A') \<and>
        part_sum2 s = Fin (of_int B) \<and> time_sum2 s = Fin (of_int B') \<and>
        \<bar>A\<bar> + \<bar>A'\<bar> + K \<le> 2 ^ 53 \<and> \<bar>B\<bar> + \<bar>B'\<bar> + K \<le> 2 ^ 53)"

text \<open>
  The variables \<open>m\<close> of a binary64 run and the variables \<open>s\<close> of the run in exact
  arithmetic agree: always on everything but the sums, and on the sums as well when
  there is a budget \<open>K \<ge> 0\<close> within which they are exact.
\<close>

definition agree :: "int \<Rightarrow> vars \<Rightarrow> vars \<Rightarrow> bool" where
  "agree K m s \<longleftrightarrow> forget_sums m = forget_sums s \<and> (0 \<le> K \<longrightarrow> m = s \<and> exact_sums s K)"


fun agree_outcome :: "int \<Rightarrow> vars outcome \<Rightarrow> vars outcome \<Rightarrow> bool" where
  "agree_outcome K (Done m es) (Done s es') = agree K m s"
| "agree_outcome K (Died f es) (Died f' es') = (f = f')"
| "agree_outcome K x y = False"

text \<open>The squares of the latencies of a list of passes, added up.\<close>

definition sum_squares :: "iteration list \<Rightarrow> int" where
  "sum_squares its = (\<Sum>it\<leftarrow>its. (sint (this_time_of it))\<^sup>2)"







text \<open>The raw statistics line of line 398 for a window with the given statistics.\<close>

fun raw_stats64 :: "cint \<Rightarrow> double \<times> double \<times> llong \<times> llong \<Rightarrow> effect" where
  "raw_stats64 n (a, b, mn, mx) =
     Printf_raw mn (div64 a (of_cint n)) mx
       (sqrt64 (sub64 (div64 b (of_cint n)) (mul64 (div64 a (of_cint n)) (div64 a (of_cint n)))))"






definition eintr_read :: iteration where
  "eintr_read = (fixture_iteration 200 220)\<lparr>pread_ret := - 1, pread_errno := 4\<rparr>"

definition eintr_env :: env where
  "eintr_env = \<lparr>clock_start = Some \<lparr>tv_sec = 0, tv_usec = 0\<rparr>,
     iters = [fixture_iteration 100 110] @ eintr_read # fixture_iteration 300 330 #
             [fixture_iteration 400 440],
     clock_end = Some \<lparr>tv_sec = 0, tv_usec = 500\<rparr>\<rparr>"

definition eintr_out :: "effect list" where
  "eintr_out =
     [Printf_request 512 ''f'' ''ext4'' ''/dev/sda'' 1 (Fin (1 / 100)), Usleep 1000000,
      Printf_request (- 1) ''f'' ''ext4'' ''/dev/sda'' 2 (Fin (1 / 50)), Usleep 1000000,
      Printf_request 512 ''f'' ''ext4'' ''/dev/sda'' 3 (Fin (3 / 100)),
      Printf_raw 10 (Fin 20) 30 (Fin (sqrt (200 / 3))), Usleep 1000000,
      Printf_header ''f'', Printf_completed 3 (Fin (1 / 2)),
      Printf_summary (Fin (1 / 100)) (Fin (1 / 50)) (Fin (3 / 100))
        (Fin (sqrt (200 / 3) / 1000))]"

section \<open>Properties\<close>

subsection \<open>Arithmetic of the model\<close>

lemma fadd_commute: "fadd x y = fadd y x"
  by (cases x; cases y) simp_all

lemma fadd_assoc: "fadd (fadd x y) z = fadd x (fadd y z)"
  by (cases x; cases y; cases z) simp_all

lemma fadd_zero_right: "fadd x (Fin 0) = x"
  by (cases x) simp_all

lemma sless_LLONG_MAX: "\<not> LLONG_MAX <s x"
proof -
  have "sint x < 2 ^ (LENGTH(64) - 1)" by (rule sint_lt)
  then show ?thesis by (simp add: word_sless_alt LLONG_MAX_def)
qed

lemma sless_LLONG_MIN: "\<not> x <s LLONG_MIN"
proof -
  have "- (2 ^ (LENGTH(64) - 1)) \<le> sint x" by (rule sint_ge)
  then show ?thesis by (simp add: word_sless_alt LLONG_MIN_def)
qed

lemma totals_record_sample: "totals (record_sample t s) = add_sample t (totals s)"
  by (auto simp: totals_def record_sample_def absorb_part_def Let_def fadd_assoc
        fadd_commute [of "of_llong t"] word_sless_alt intro: signed_word_eqI)

lemma totals_flush_window: "totals (fst (flush_window c s)) = totals s"
  by (simp add: totals_def flush_window_def absorb_part_def Let_def fadd_zero_right
        sless_LLONG_MAX sless_LLONG_MIN)

lemma totals_sig_exit: "totals (sig_exit s) = totals s"
  by (simp add: totals_def sig_exit_def absorb_part_def Let_def)

lemma totals_request_update: "totals (s\<lparr>request := n\<rparr>) = totals s"
  by (simp add: totals_def absorb_part_def Let_def)

lemma totals_time_total_update: "totals (s\<lparr>time_total := t\<rparr>) = totals s"
  by (simp add: totals_def absorb_part_def Let_def)

lemma absorb_part_frame [simp]:
  "request (absorb_part s) = request s"
  "exiting (absorb_part s) = exiting s"
  "time_total (absorb_part s) = time_total s"
  by (simp_all add: absorb_part_def Let_def)

subsection \<open>What one iteration does to the totals\<close>

lemma record_sample_frame [simp]:
  "request (record_sample t s) = request s"
  "exiting (record_sample t s) = exiting s"
  "time_total (record_sample t s) = time_total s"
  by (simp_all add: record_sample_def Let_def)

lemma flush_window_frame [simp]:
  "request (fst (flush_window c s)) = request s"
  "exiting (fst (flush_window c s)) = exiting s"
  "time_total (fst (flush_window c s)) = time_total s"
  by (simp_all add: flush_window_def absorb_part_def Let_def)

lemma sig_exit_frame [simp]:
  "request (sig_exit s) = request s"
  "time_total (sig_exit s) = time_total s"
  "exiting (sig_exit s) = 1"
  by (simp_all add: sig_exit_def)

lemma body_Continue:
  assumes "body c s it = Continue s' es"
  shows "totals s' = add_sample (this_time_of it) (totals s)"
    and "request s' = request s + 1"
    and "time_total s' = time_total s"
  using assms
  by (auto simp: body_def this_time_of_def Let_def totals_record_sample totals_flush_window
        totals_sig_exit totals_request_update split_def
      split: sum.splits if_splits)

lemma body_not_Break: "body c s it \<noteq> Break s'"
  by (auto simp: body_def Let_def split_def split: sum.splits if_splits)

lemma iter_Continue:
  assumes "iter c s it = Continue s' es"
  shows "totals s' = add_sample (this_time_of it) (totals s)"
    and "request s' = request s + 1"
    and "time_total s' = time_total s"
  using assms
  by (auto simp: iter_def Let_def totals_sig_exit dest: body_Continue
      split: sum.splits bool.splits if_splits)

lemma iter_Break:
  assumes "iter c s it = Break s'"
  shows "totals s' = totals s" and "request s' = request s" and "time_total s' = time_total s"
  using assms
  by (auto simp: iter_def Let_def totals_sig_exit body_not_Break
      split: sum.splits bool.splits if_splits)

lemma loop_Done:
  "loop c s its = Some (Done sf es) \<Longrightarrow>
   \<exists>k<length its.
     totals sf = fold add_sample (map this_time_of (take k its)) (totals s) \<and>
     request sf = request s + of_nat k \<and> time_total sf = time_total s"
proof (induction its arbitrary: s es)
  case Nil
  then show ?case by simp
next
  case (Cons it its)
  show ?case
  proof (cases "iter c s it")
    case (Continue s1 es1)
    with Cons.prems obtain es2 where l: "loop c s1 its = Some (Done sf es2)"
      by (cases "loop c s1 its"; cases "the (loop c s1 its)") auto
    from Cons.IH [OF l] obtain k where k: "k < length its"
      "totals sf = fold add_sample (map this_time_of (take k its)) (totals s1)"
      "request sf = request s1 + of_nat k" "time_total sf = time_total s1"
      by blast
    have "totals sf = fold add_sample (map this_time_of (take (Suc k) (it # its))) (totals s)"
      using k(2) iter_Continue(1) [OF Continue] by simp
    moreover have "request sf = request s + of_nat (Suc k)"
      using k(3) iter_Continue(2) [OF Continue] by simp
    moreover have "time_total sf = time_total s"
      using k(4) iter_Continue(3) [OF Continue] by simp
    moreover have "Suc k < length (it # its)" using k(1) by simp
    ultimately show ?thesis by blast
  next
    case (Break s1)
    with Cons.prems have "sf = s1" by simp
    with iter_Break [OF Break] have
      "totals sf = fold add_sample (map this_time_of (take 0 (it # its))) (totals s)"
      "request sf = request s + of_nat 0" "time_total sf = time_total s"
      by simp_all
    then show ?thesis by (intro exI [of _ 0]) simp
  next
    case (Fatal f es1)
    with Cons.prems show ?thesis by simp
  qed
qed

lemma Min_insert_insert:
  "finite S \<Longrightarrow> Min (insert a (insert b S)) = Min (insert (min a b) S)"
  by (cases "S = {}") (simp_all add: min.assoc)

lemma Max_insert_insert:
  "finite S \<Longrightarrow> Max (insert a (insert b S)) = Max (insert (max a b) S)"
  by (cases "S = {}") (simp_all add: max.assoc)

lemma fold_add_sample:
  "\<exists>mn' mx'.
     fold add_sample ts (Fin a, Fin b, mn, mx) =
       (Fin (a + (\<Sum>t\<leftarrow>ts. real_of_int (sint t))),
        Fin (b + (\<Sum>t\<leftarrow>ts. real_of_int (sint (t * t)))), mn', mx') \<and>
     sint mn' = Min (insert (sint mn) (sint ` set ts)) \<and>
     sint mx' = Max (insert (sint mx) (sint ` set ts))"
proof (induction ts arbitrary: a b mn mx)
  case Nil
  then show ?case by simp
next
  case (Cons t ts)
  let ?mn = "if t <s mn then t else mn" and ?mx = "if mx <s t then t else mx"
  have mn: "sint ?mn = min (sint mn) (sint t)" and mx: "sint ?mx = max (sint mx) (sint t)"
    by (auto simp: word_sless_alt)
  from Cons.IH [of "a + real_of_int (sint t)" "b + real_of_int (sint (t * t))" ?mn ?mx]
  obtain mn' mx' where
    f: "fold add_sample ts (Fin (a + real_of_int (sint t)), Fin (b + real_of_int (sint (t * t))), ?mn, ?mx) =
       (Fin (a + real_of_int (sint t) + (\<Sum>t\<leftarrow>ts. real_of_int (sint t))),
        Fin (b + real_of_int (sint (t * t)) + (\<Sum>t\<leftarrow>ts. real_of_int (sint (t * t)))), mn', mx')"
    and m: "sint mn' = Min (insert (sint ?mn) (sint ` set ts))"
       "sint mx' = Max (insert (sint ?mx) (sint ` set ts))"
    by blast
  have "fold add_sample (t # ts) (Fin a, Fin b, mn, mx) =
       (Fin (a + (\<Sum>t\<leftarrow>t # ts. real_of_int (sint t))),
        Fin (b + (\<Sum>t\<leftarrow>t # ts. real_of_int (sint (t * t)))), mn', mx')"
    using f by (simp add: of_llong_def add.assoc)
  moreover have "sint mn' = Min (insert (sint mn) (sint ` set (t # ts)))"
  proof -
    have "Min (insert (sint mn) (insert (sint t) (sint ` set ts))) =
          Min (insert (min (sint mn) (sint t)) (sint ` set ts))"
      by (rule Min_insert_insert) simp
    with m(1) show ?thesis by (simp only: mn list.set image_insert)
  qed
  moreover have "sint mx' = Max (insert (sint mx) (sint ` set (t # ts)))"
  proof -
    have "Max (insert (sint mx) (insert (sint t) (sint ` set ts))) =
          Max (insert (max (sint mx) (sint t)) (sint ` set ts))"
      by (rule Max_insert_insert) simp
    with m(2) show ?thesis by (simp only: mx list.set image_insert)
  qed
  ultimately show ?case by blast
qed

lemma totals_init: "totals (init t) = (Fin 0, Fin 0, LLONG_MAX, LLONG_MIN)"
  by (simp add: totals_def init_def absorb_part_def Let_def sless_LLONG_MAX sless_LLONG_MIN)

lemma finalize_Inr:
  assumes "now g = Inr t"
  shows "finalize c s g =
     (let r = absorb_part (s\<lparr>time_total := t - time_total s\<rparr>);
          avg = fdiv (time_sum r) (of_cint (request r));
          st = \<lparr>locals = r, time_avg = avg,
                 time_mdev = fsqrt (fsub (fdiv (time_sum2 r) (of_cint (request r)))
                                         (fmul avg avg))\<rparr>
      in Done st (report c st))"
  using assms by (simp add: finalize_def Let_def)

lemma finalize_Done:
  assumes "finalize c s g = Done st es" and "totals s = (a, b, mn, mx)"
  shows "time_avg st = fdiv a (of_cint (request s))"
    and "time_mdev st = fsqrt (fsub (fdiv b (of_cint (request s)))
           (fmul (fdiv a (of_cint (request s))) (fdiv a (of_cint (request s)))))"
    and "time_min (locals st) = mn" and "time_max (locals st) = mx"
    and "request (locals st) = request s"
proof -
  from assms(1) obtain t where t: "now g = Inr t"
    by (cases "now g") (simp_all add: finalize_def)
  let ?r = "absorb_part (s\<lparr>time_total := t - time_total s\<rparr>)"
  have "totals (s\<lparr>time_total := t - time_total s\<rparr>) = (a, b, mn, mx)"
    using assms(2) by (simp add: totals_time_total_update)
  then have tot: "time_sum ?r = a" "time_sum2 ?r = b" "time_min ?r = mn" "time_max ?r = mx"
    "request ?r = request s"
    by (simp_all add: totals_def Let_def)
  have st: "locals st = ?r" "time_avg st = fdiv (time_sum ?r) (of_cint (request ?r))"
    "time_mdev st = fsqrt (fsub (fdiv (time_sum2 ?r) (of_cint (request ?r)))
       (fmul (fdiv (time_sum ?r) (of_cint (request ?r)))
             (fdiv (time_sum ?r) (of_cint (request ?r)))))"
    using assms(1) unfolding finalize_Inr [OF t] Let_def by auto
  show "time_avg st = fdiv a (of_cint (request s))"
    and "time_mdev st = fsqrt (fsub (fdiv b (of_cint (request s)))
           (fmul (fdiv a (of_cint (request s))) (fdiv a (of_cint (request s)))))"
    and "time_min (locals st) = mn" and "time_max (locals st) = mx"
    and "request (locals st) = request s"
    unfolding st tot by (rule refl)+
qed

subsection \<open>The statistics of a run that returns\<close>

lemma sint_of_nat_small: "k < 2 ^ 31 \<Longrightarrow> sint (word_of_nat k :: cint) = int k"
  by (simp add: signed_of_nat signed_take_bit_int_eq_self)

lemma unat_of_nat_small: "k < 2 ^ 31 \<Longrightarrow> unat (word_of_nat k :: cint) = k"
  by (simp add: unat_of_nat)

lemma Min_insert_LLONG_MAX:
  assumes "ts \<noteq> []"
  shows "Min (insert (sint LLONG_MAX) (sint ` set ts)) = Min (sint ` set (ts :: llong list))"
proof -
  have ne: "sint ` set ts \<noteq> {}" and fin: "finite (sint ` set ts)" using assms by simp_all
  have "Min (sint ` set ts) \<in> sint ` set ts" using fin ne by (rule Min_in)
  then obtain x :: llong where x: "Min (sint ` set ts) = sint x" by blast
  have "sint x < 2 ^ (LENGTH(64) - 1)" by (rule sint_lt)
  then have "Min (sint ` set ts) \<le> sint LLONG_MAX" by (simp add: x LLONG_MAX_def)
  then show ?thesis by (simp only: Min_insert [OF fin ne] min_absorb2)
qed

lemma Max_insert_LLONG_MIN:
  assumes "ts \<noteq> []"
  shows "Max (insert (sint LLONG_MIN) (sint ` set ts)) = Max (sint ` set (ts :: llong list))"
proof -
  have ne: "sint ` set ts \<noteq> {}" and fin: "finite (sint ` set ts)" using assms by simp_all
  have "Max (sint ` set ts) \<in> sint ` set ts" using fin ne by (rule Max_in)
  then obtain x :: llong where x: "Max (sint ` set ts) = sint x" by blast
  have "- (2 ^ (LENGTH(64) - 1)) \<le> sint x" by (rule sint_ge)
  then have "sint LLONG_MIN \<le> Max (sint ` set ts)" by (simp add: x LLONG_MIN_def)
  then show ?thesis by (simp only: Max_insert [OF fin ne] max_absorb2)
qed

lemma main_Done:
  assumes "main c e = Some (Done st out)"
  obtains t0 sf es1 es2 where "now (clock_start e) = Inr t0"
    and "loop c (init t0) (iters e) = Some (Done sf es1)"
    and "finalize c sf (clock_end e) = Done st es2" and "out = es1 @ es2"
proof -
  from assms obtain t0 where t0: "now (clock_start e) = Inr t0"
    by (cases "now (clock_start e)") (simp_all add: main_def)
  from assms t0 obtain r where r: "loop c (init t0) (iters e) = Some r"
    by (cases "loop c (init t0) (iters e)") (simp_all add: main_def)
  from assms t0 r obtain sf es1 where sf: "r = Done sf es1"
    by (cases r) (simp_all add: main_def)
  from assms t0 r sf have "emit es1 (finalize c sf (clock_end e)) = Done st out"
    by (simp add: main_def)
  then obtain es2 where "finalize c sf (clock_end e) = Done st es2" "out = es1 @ es2"
    by (cases "finalize c sf (clock_end e)") auto
  with t0 r sf that show ?thesis by blast
qed

text \<open>The totals of a run that returns, in terms of the latencies of the iterations
  that went through the body.\<close>

lemma main_Done_totals:
  assumes "main c e = Some (Done st out)" and "length (iters e) \<le> 2 ^ 31"
  obtains k where "k < length (iters e)" and "unat (request (locals st)) = k"
    and "of_cint (request (locals st)) = Fin (real k)"
    and "time_avg st =
           fdiv (Fin (\<Sum>t\<leftarrow>map this_time_of (take k (iters e)). real_of_int (sint t))) (Fin (real k))"
    and "time_mdev st =
           fsqrt (fsub
             (fdiv (Fin (\<Sum>t\<leftarrow>map this_time_of (take k (iters e)). real_of_int (sint (t * t))))
                   (Fin (real k)))
             (fmul (time_avg st) (time_avg st)))"
    and "sint (time_min (locals st)) =
           Min (insert (sint LLONG_MAX) (sint ` set (map this_time_of (take k (iters e)))))"
    and "sint (time_max (locals st)) =
           Max (insert (sint LLONG_MIN) (sint ` set (map this_time_of (take k (iters e)))))"
proof -
  from assms(1) obtain t0 sf es1 es2 where
    l: "loop c (init t0) (iters e) = Some (Done sf es1)" and
    f: "finalize c sf (clock_end e) = Done st es2"
    by (rule main_Done)
  from loop_Done [OF l] obtain k where k: "k < length (iters e)"
    and tot: "totals sf = fold add_sample (map this_time_of (take k (iters e))) (totals (init t0))"
    and req: "request sf = request (init t0) + of_nat k"
    by blast
  let ?ts = "map this_time_of (take k (iters e))"
  from fold_add_sample [of ?ts 0 0 LLONG_MAX LLONG_MIN] tot obtain mn mx where
    tot': "totals sf = (Fin (\<Sum>t\<leftarrow>?ts. real_of_int (sint t)),
             Fin (\<Sum>t\<leftarrow>?ts. real_of_int (sint (t * t))), mn, mx)"
    and mn: "sint mn = Min (insert (sint LLONG_MAX) (sint ` set ?ts))"
    and mx: "sint mx = Max (insert (sint LLONG_MIN) (sint ` set ?ts))"
    by (auto simp: totals_init)
  have k31: "k < 2 ^ 31" using k assms(2) by simp
  have req': "request sf = of_nat k" using req by (simp add: init_def)
  note fd = finalize_Done [OF f tot']
  have r: "request (locals st) = of_nat k" using fd(5) req' by simp
  have 1: "unat (request (locals st)) = k" using r k31 by (simp add: unat_of_nat_small)
  have 2: "of_cint (request (locals st)) = Fin (real k)"
    using r k31 by (simp add: of_cint_def sint_of_nat_small)
  have 3: "of_cint (request sf) = Fin (real k)" using 2 fd(5) by simp
  show ?thesis
    using that [OF k 1 2] fd(1-4) mn mx unfolding 3 by simp
qed

text \<open>
  Claim C1. A run that returns after recording \<open>N \<ge> 1\<close> samples computes as its mean
  the sum of the \<open>N\<close> latencies divided by \<open>N\<close>, and as its minimum and maximum the
  least and the greatest of the \<open>N\<close> latencies in the signed order, whichever test
  ended the loop. The samples are the latencies of the first \<open>N\<close> iterations; \<open>N\<close> is
  the final value of \<^verbatim>\<open>request\<close>, which has not wrapped around when the loop went
  through at most \<open>2\<^sup>3\<^sup>1\<close> iterations.
\<close>

theorem run_mean_min_max:
  assumes "main c e = Some (Done st out)"
    and "length (iters e) \<le> 2 ^ 31"
    and "request (locals st) \<noteq> 0"
  shows "let N = unat (request (locals st));
             samples = map this_time_of (take N (iters e))
         in length samples = N \<and>
            time_avg st = Fin ((\<Sum>t\<leftarrow>samples. real_of_int (sint t)) / real N) \<and>
            sint (time_min (locals st)) = Min (sint ` set samples) \<and>
            sint (time_max (locals st)) = Max (sint ` set samples)"
proof -
  from assms(1,2) obtain k where k: "k < length (iters e)"
    and N: "unat (request (locals st)) = k"
    and avg: "time_avg st =
           fdiv (Fin (\<Sum>t\<leftarrow>map this_time_of (take k (iters e)). real_of_int (sint t))) (Fin (real k))"
    and mn: "sint (time_min (locals st)) =
           Min (insert (sint LLONG_MAX) (sint ` set (map this_time_of (take k (iters e)))))"
    and mx: "sint (time_max (locals st)) =
           Max (insert (sint LLONG_MIN) (sint ` set (map this_time_of (take k (iters e)))))"
    by (rule main_Done_totals)
  have k0: "k \<noteq> 0" using N assms(3) unat_gt_0 [of "request (locals st)"] by simp
  then have ne: "map this_time_of (take k (iters e)) \<noteq> []" using k by auto
  have len: "length (map this_time_of (take k (iters e))) = k" using k by simp
  have avg': "time_avg st =
      Fin ((\<Sum>t\<leftarrow>map this_time_of (take k (iters e)). real_of_int (sint t)) / real k)"
    using avg k0 by simp
  show ?thesis
    unfolding Let_def N
    using len avg' mn mx
    by (simp only: Min_insert_LLONG_MAX [OF ne] Max_insert_LLONG_MIN [OF ne] simp_thms)
qed

subsection \<open>Running the model\<close>

lemmas run_defs = main_def now_def init_def iter_def check_stop_def body_def
  record_sample_def window_due_def c_rem_def flush_window_def absorb_part_def finalize_def
  report_def of_llong_def of_cint_def LLONG_MAX_def LLONG_MIN_def INT_MIN_def EINTR_def
  sig_exit_def fsub_def signed_modulo_int_def Let_def word_sle_eq word_sless_alt

lemma main_fixture: "main fixture_config fixture_env = Some (Done fixture_final fixture_out)"
  by (simp add: fixture_config_def fixture_env_def fixture_iteration_def fixture_final_def
        fixture_out_def run_defs)

text \<open>The run of three requests: it returns with \<^verbatim>\<open>request\<close> = 3.\<close>

theorem run_mean_min_max_witness:
  "main fixture_config fixture_env = Some (Done fixture_final fixture_out) \<and>
   length (iters fixture_env) \<le> 2 ^ 31 \<and>
   request (locals fixture_final) \<noteq> 0 \<and>
   (let N = unat (request (locals fixture_final));
        samples = map this_time_of (take N (iters fixture_env))
    in length samples = N \<and>
       time_avg fixture_final = Fin ((\<Sum>t\<leftarrow>samples. real_of_int (sint t)) / real N) \<and>
       sint (time_min (locals fixture_final)) = Min (sint ` set samples) \<and>
       sint (time_max (locals fixture_final)) = Max (sint ` set samples))"
proof -
  have h1: "main fixture_config fixture_env = Some (Done fixture_final fixture_out)"
    by (rule main_fixture)
  have h2: "length (iters fixture_env) \<le> 2 ^ 31"
    by (simp add: fixture_env_def)
  have h3: "request (locals fixture_final) \<noteq> 0"
    by (simp add: fixture_final_def)
  from h1 h2 h3 run_mean_min_max [OF h1 h2 h3] show ?thesis by (intro conjI)
qed

subsection \<open>The window period in exact arithmetic\<close>

lemma body_exiting:
  "body c s it = Continue s' es \<Longrightarrow> exiting s' = (if sigint_body it then 1 else exiting s)"
  by (auto simp: body_def Let_def split_def split: sum.splits if_splits)

lemma body_no_period:
  "body c s it = Continue s1 es \<Longrightarrow> \<exists>s1' es'. body (c\<lparr>period := 0\<rparr>) s' it = Continue s1' es'"
  by (auto simp: body_def window_due_def Let_def split_def split: sum.splits if_splits)

lemma check_stop_no_period:
  "request s = request s' \<Longrightarrow> exiting s = exiting s' \<Longrightarrow>
   check_stop (c\<lparr>period := p\<rparr>) s' it = check_stop c s it"
  by (simp add: check_stop_def split: sum.splits)

lemma same_run_sig_exit: "same_run s s' \<Longrightarrow> same_run (sig_exit s) (sig_exit s')"
  by (simp add: same_run_def totals_sig_exit)

lemma iter_no_period_Continue:
  assumes "iter c s it = Continue s1 es" and "same_run s s'"
  shows "\<exists>s1' es'. iter (c\<lparr>period := 0\<rparr>) s' it = Continue s1' es' \<and> same_run s1 s1'"
proof -
  let ?s = "if sigint_top it then sig_exit s else s"
  let ?s' = "if sigint_top it then sig_exit s' else s'"
  have R: "same_run ?s ?s'" using assms(2) by (simp add: same_run_sig_exit)
  from assms(1) have cs: "check_stop c ?s it = Inr False" and b: "body c ?s it = Continue s1 es"
    by (auto simp: iter_def Let_def split: sum.splits bool.splits if_splits)
  from R have cs': "check_stop (c\<lparr>period := 0\<rparr>) ?s' it = check_stop c ?s it"
    by (intro check_stop_no_period) (simp_all add: same_run_def)
  from body_no_period [OF b] obtain s1' es' where
    b': "body (c\<lparr>period := 0\<rparr>) ?s' it = Continue s1' es'" by blast
  have "iter (c\<lparr>period := 0\<rparr>) s' it = Continue s1' es'"
    using cs cs' b' by (simp add: iter_def Let_def)
  moreover have "same_run s1 s1'"
    using R body_Continue [OF b] body_Continue [OF b'] body_exiting [OF b] body_exiting [OF b']
    by (simp add: same_run_def)
  ultimately show ?thesis by blast
qed

lemma iter_no_period_Break:
  assumes "iter c s it = Break s1" and "same_run s s'"
  shows "\<exists>s1'. iter (c\<lparr>period := 0\<rparr>) s' it = Break s1' \<and> same_run s1 s1'"
proof -
  let ?s = "if sigint_top it then sig_exit s else s"
  let ?s' = "if sigint_top it then sig_exit s' else s'"
  have R: "same_run ?s ?s'" using assms(2) by (simp add: same_run_sig_exit)
  from assms(1) have cs: "check_stop c ?s it = Inr True" and s1: "s1 = ?s"
    by (auto simp: iter_def Let_def body_not_Break split: sum.splits bool.splits if_splits)
  from R have cs': "check_stop (c\<lparr>period := 0\<rparr>) ?s' it = check_stop c ?s it"
    by (intro check_stop_no_period) (simp_all add: same_run_def)
  have "iter (c\<lparr>period := 0\<rparr>) s' it = Break ?s'"
    using cs cs' by (simp add: iter_def Let_def)
  with R s1 show ?thesis by blast
qed

lemma loop_no_period:
  "loop c s its = Some (Done sf es) \<Longrightarrow> same_run s s' \<Longrightarrow>
   \<exists>sf' es'. loop (c\<lparr>period := 0\<rparr>) s' its = Some (Done sf' es') \<and> same_run sf sf'"
proof (induction its arbitrary: s s' es)
  case Nil
  then show ?case by simp
next
  case (Cons it its)
  show ?case
  proof (cases "iter c s it")
    case (Continue s1 es1)
    with Cons.prems(1) obtain es2 where l: "loop c s1 its = Some (Done sf es2)"
      by (cases "loop c s1 its"; cases "the (loop c s1 its)") auto
    from iter_no_period_Continue [OF Continue Cons.prems(2)] obtain s1' es1' where
      i': "iter (c\<lparr>period := 0\<rparr>) s' it = Continue s1' es1'" and R: "same_run s1 s1'"
      by blast
    from Cons.IH [OF l R] obtain sf' es' where
      "loop (c\<lparr>period := 0\<rparr>) s1' its = Some (Done sf' es')" "same_run sf sf'"
      by blast
    with i' show ?thesis by simp
  next
    case (Break s1)
    with Cons.prems(1) have sf: "sf = s1" by simp
    from iter_no_period_Break [OF Break Cons.prems(2)] sf show ?thesis by auto
  next
    case (Fatal f es1)
    with Cons.prems(1) show ?thesis by simp
  qed
qed

lemma finalize_same_run:
  assumes "finalize c s g = Done st es" and "same_run s s'"
  shows "\<exists>st' es'. finalize c' s' g = Done st' es' \<and>
     time_avg st' = time_avg st \<and> time_mdev st' = time_mdev st \<and>
     time_min (locals st') = time_min (locals st) \<and>
     time_max (locals st') = time_max (locals st) \<and>
     request (locals st') = request (locals st)"
proof -
  from assms(1) obtain t where t: "now g = Inr t"
    by (cases "now g") (simp_all add: finalize_def)
  obtain st' es' where f': "finalize c' s' g = Done st' es'"
    unfolding finalize_Inr [OF t] Let_def by blast
  obtain a b mn mx where tot: "totals s = (a, b, mn, mx)" by (cases "totals s") auto
  with assms(2) have tot': "totals s' = (a, b, mn, mx)" and r: "request s' = request s"
    by (simp_all add: same_run_def)
  show ?thesis
    using f' finalize_Done [OF assms(1) tot] finalize_Done [OF f' tot'] r by simp
qed

text \<open>In exact arithmetic the window period changes none of the statistics of a run that
  returns, whatever the latencies are.\<close>

lemma window_flush_exact:
  assumes "main c e = Some (Done st out)"
  shows "\<exists>st' out'. main (c\<lparr>period := 0\<rparr>) e = Some (Done st' out') \<and>
     time_avg st' = time_avg st \<and> time_mdev st' = time_mdev st \<and>
     time_min (locals st') = time_min (locals st) \<and>
     time_max (locals st') = time_max (locals st) \<and>
     request (locals st') = request (locals st)"
proof -
  from assms obtain t0 sf es1 es2 where t0: "now (clock_start e) = Inr t0"
    and l: "loop c (init t0) (iters e) = Some (Done sf es1)"
    and f: "finalize c sf (clock_end e) = Done st es2"
    by (rule main_Done)
  have "same_run (init t0) (init t0)" by (simp add: same_run_def)
  from loop_no_period [OF l this] obtain sf' es1' where
    l': "loop (c\<lparr>period := 0\<rparr>) (init t0) (iters e) = Some (Done sf' es1')"
    and R: "same_run sf sf'" by blast
  from finalize_same_run [OF f R, of "c\<lparr>period := 0\<rparr>"] obtain st' es2' where
    f': "finalize (c\<lparr>period := 0\<rparr>) sf' (clock_end e) = Done st' es2'"
    and eq: "time_avg st' = time_avg st" "time_mdev st' = time_mdev st"
      "time_min (locals st') = time_min (locals st)"
      "time_max (locals st') = time_max (locals st)"
      "request (locals st') = request (locals st)"
    by blast
  have "main (c\<lparr>period := 0\<rparr>) e = Some (Done st' (es1' @ es2'))"
    using t0 l' f' by (simp add: main_def)
  with eq show ?thesis by blast
qed

subsection \<open>Fatal errors\<close>

lemma loop_advance:
  "advance c s pre = Some (s', es) \<Longrightarrow>
   loop c s (pre @ rest) = map_option (emit es) (loop c s' rest)"
proof (induction pre arbitrary: s es)
  case Nil
  have "emit [] r = r" for r :: "vars outcome" by (cases r) simp_all
  then have "map_option (emit []) x = x" for x :: "vars outcome option" by (cases x) simp_all
  with Nil show ?case by simp
next
  case (Cons it pre)
  from Cons.prems obtain s1 es1 es2 where i: "iter c s it = Continue s1 es1"
    and a: "advance c s1 pre = Some (s', es2)" and es: "es = es1 @ es2"
    by (cases "iter c s it") (auto split: option.splits)
  have "emit (es1 @ es2) r = emit es1 (emit es2 r)" for r :: "vars outcome"
    by (cases r) simp_all
  then have "map_option (emit (es1 @ es2)) x = map_option (emit es1) (map_option (emit es2) x)"
    for x :: "vars outcome option" by (cases x) simp_all
  with Cons.IH [OF a] i es show ?case by simp
qed

lemma body_no_summary:
  "body c s it = Continue s' es \<Longrightarrow> filter summary_line es = []"
  by (auto simp: body_def flush_window_def Let_def split_def split: sum.splits if_splits)

lemma iter_no_summary:
  "iter c s it = Continue s' es \<Longrightarrow> filter summary_line es = []"
  by (auto simp: iter_def Let_def body_no_summary split: sum.splits bool.splits if_splits)

lemma advance_no_summary:
  "advance c s pre = Some (s', es) \<Longrightarrow> filter summary_line es = []"
proof (induction pre arbitrary: s es)
  case Nil
  then show ?case by simp
next
  case (Cons it pre)
  from Cons.prems obtain s1 es1 es2 where i: "iter c s it = Continue s1 es1"
    and a: "advance c s1 pre = Some (s', es2)" and es: "es = es1 @ es2"
    by (cases "iter c s it") (auto split: option.splits)
  with Cons.IH [OF a] iter_no_summary [OF i] show ?case by simp
qed

lemma iter_fatal_io:
  assumes "check_stop c (if sigint_top it then sig_exit s else s) it = Inr False"
    and "(cached c = 0 \<and> fadvise_ret it \<noteq> 0) \<or>
         (\<exists>t0. now (tv_before it) = Inr t0) \<and> pread_ret it <s 0 \<and> pread_errno it \<noteq> EINTR"
  shows "iter c s it =
     Fatal (Err 1 (if cached c = 0 \<and> fadvise_ret it \<noteq> 0 then ''fadvise failed''
                   else ''read failed'')) []"
  using assms by (auto simp: iter_def body_def Let_def)

text \<open>
  Claim C3, as the code has it. When the cache invalidation fails, or the read fails
  with an error other than \<^verbatim>\<open>EINTR\<close>, in a pass that the loop has let into its body,
  the process ends at once through \<^verbatim>\<open>err(1, ...)\<close>: its exit status is 1 and its output
  is what the earlier passes printed, with no line of the final summary.
\<close>

theorem fatal_io_exits_without_summary:
  assumes "now (clock_start e) = Inr t"
    and "iters e = pre @ it # post"
    and "advance c (init t) pre = Some (s, out)"
    and "check_stop c (if sigint_top it then sig_exit s else s) it = Inr False"
    and "(cached c = 0 \<and> fadvise_ret it \<noteq> 0) \<or>
         (\<exists>t0. now (tv_before it) = Inr t0) \<and> pread_ret it <s 0 \<and> pread_errno it \<noteq> EINTR"
  shows "main c e = Some (Died (Err 1 (if cached c = 0 \<and> fadvise_ret it \<noteq> 0
                                        then ''fadvise failed'' else ''read failed'')) out) \<and>
         exit_status (Died (Err 1 (if cached c = 0 \<and> fadvise_ret it \<noteq> 0
                                        then ''fadvise failed'' else ''read failed'')) out) = Some 1 \<and>
         filter summary_line out = []"
proof -
  let ?f = "Err 1 (if cached c = 0 \<and> fadvise_ret it \<noteq> 0 then ''fadvise failed''
                   else ''read failed'')"
  have "iter c s it = Fatal ?f []" using assms(4,5) by (rule iter_fatal_io)
  then have "loop c s (it # post) = Some (Died ?f [])" by simp
  with loop_advance [OF assms(3), of "it # post"]
  have "loop c (init t) (iters e) = Some (Died ?f out)" by (simp add: assms(2))
  then have "main c e = Some (Died ?f out)" by (simp add: main_def assms(1))
  moreover have "filter summary_line out = []" using assms(3) by (rule advance_no_summary)
  ultimately show ?thesis by simp
qed

lemma advance_fixture_1:
  "advance fixture_config (init 0) [fixture_iteration 100 110] = Some (one_sample, one_sample_out)"
  by (simp add: fixture_config_def fixture_iteration_def one_sample_def one_sample_out_def
        run_defs)

text \<open>The claim as stated fails: the read of the second pass fails, one sample has been
  collected, and the process exits with status 1 without any line of the summary.\<close>

theorem failed_read_prints_no_summary:
  "main fixture_config failed_read_env =
     Some (Died (Err 1 ''read failed'')
       [Printf_request 512 ''f'' ''ext4'' ''/dev/sda'' 1 (Fin (1 / 100)), Usleep 1000000]) \<and>
   filter summary_line
       [Printf_request 512 ''f'' ''ext4'' ''/dev/sda'' 1 (Fin (1 / 100)), Usleep 1000000] = []"
  by (simp add: fixture_config_def failed_read_env_def failed_read_def fixture_iteration_def
        run_defs)

text \<open>The same run: its first pass completes, the read of its second pass fails.\<close>

theorem fatal_io_exits_without_summary_witness:
  "now (clock_start failed_read_env) = Inr 0 \<and>
   iters failed_read_env = [fixture_iteration 100 110] @ failed_read # [fixture_iteration 300 330] \<and>
   advance fixture_config (init 0) [fixture_iteration 100 110] = Some (one_sample, one_sample_out) \<and>
   check_stop fixture_config (if sigint_top failed_read then sig_exit one_sample else one_sample)
     failed_read = Inr False \<and>
   now (tv_before failed_read) = Inr 200 \<and> pread_ret failed_read <s 0 \<and>
   pread_errno failed_read \<noteq> EINTR \<and>
   main fixture_config failed_read_env = Some (Died (Err 1 ''read failed'') one_sample_out) \<and>
   exit_status (Died (Err 1 ''read failed'') one_sample_out :: final outcome) = Some 1 \<and>
   filter summary_line one_sample_out = []"
proof -
  have h1: "now (clock_start failed_read_env) = Inr 0"
    by (simp add: failed_read_env_def now_def)
  have h2: "iters failed_read_env =
      [fixture_iteration 100 110] @ failed_read # [fixture_iteration 300 330]"
    by (simp add: failed_read_env_def)
  note h3 = advance_fixture_1
  have h4: "check_stop fixture_config
      (if sigint_top failed_read then sig_exit one_sample else one_sample) failed_read = Inr False"
    by (simp add: one_sample_def failed_read_def fixture_iteration_def fixture_config_def
          check_stop_def word_sle_eq)
  have h5: "now (tv_before failed_read) = Inr 200" "pread_ret failed_read <s 0"
    "pread_errno failed_read \<noteq> EINTR"
    by (simp_all add: failed_read_def fixture_iteration_def now_def EINTR_def word_sless_alt)
  have h6: "(cached fixture_config = 0 \<and> fadvise_ret failed_read \<noteq> 0) \<or>
      (\<exists>t0. now (tv_before failed_read) = Inr t0) \<and> pread_ret failed_read <s 0 \<and>
      pread_errno failed_read \<noteq> EINTR"
    using h5 by simp
  have f: "fadvise_ret failed_read = 0" by (simp add: failed_read_def fixture_iteration_def)
  from fatal_io_exits_without_summary [OF h1 h2 h3 h4 h6] h1 h2 h3 h4 h5 show ?thesis
    by (simp add: f)
qed

subsection \<open>Runs without samples\<close>

lemma loop_Done_split:
  "loop c s its = Some (Done sf es) \<Longrightarrow>
   \<exists>pre it post s1. its = pre @ it # post \<and> advance c s pre = Some (s1, es) \<and>
     iter c s1 it = Break sf"
proof (induction its arbitrary: s es)
  case Nil
  then show ?case by simp
next
  case (Cons it its)
  show ?case
  proof (cases "iter c s it")
    case (Continue s1 es1)
    with Cons.prems obtain es2 where l: "loop c s1 its = Some (Done sf es2)"
      and es: "es = es1 @ es2"
      by (cases "loop c s1 its"; cases "the (loop c s1 its)") auto
    from Cons.IH [OF l] obtain pre it' post s2 where
      "its = pre @ it' # post" "advance c s1 pre = Some (s2, es2)" "iter c s2 it' = Break sf"
      by blast
    with Continue es have "it # its = (it # pre) @ it' # post \<and>
      advance c s (it # pre) = Some (s2, es) \<and> iter c s2 it' = Break sf"
      by simp
    then show ?thesis by blast
  next
    case (Break s1)
    with Cons.prems have "it # its = [] @ it # its \<and> advance c s [] = Some (s, es) \<and>
      iter c s it = Break sf" by simp
    then show ?thesis by blast
  next
    case (Fatal f es1)
    with Cons.prems show ?thesis by simp
  qed
qed

lemma advance_request:
  "advance c s pre = Some (s1, es) \<Longrightarrow> request s1 = request s + of_nat (length pre)"
proof (induction pre arbitrary: s es)
  case Nil
  then show ?case by simp
next
  case (Cons it pre)
  from Cons.prems obtain s' es1 es2 where i: "iter c s it = Continue s' es1"
    and a: "advance c s' pre = Some (s1, es2)"
    by (cases "iter c s it") (auto split: option.splits)
  from Cons.IH [OF a] iter_Continue(2) [OF i] show ?case by simp
qed

lemma finalize_no_request:
  assumes "now g = Inr t" and "totals s = (Fin 0, Fin 0, LLONG_MAX, LLONG_MIN)"
    and "request s = 0"
  shows "\<exists>st. finalize c s g = Done st (report c st) \<and>
     request (locals st) = 0 \<and> time_total (locals st) = t - time_total s \<and>
     time_min (locals st) = LLONG_MAX \<and> time_max (locals st) = LLONG_MIN \<and>
     time_avg st = NaN \<and> time_mdev st = NaN"
proof -
  obtain st where f: "finalize c s g = Done st (report c st)"
    unfolding finalize_Inr [OF assms(1)] Let_def by blast
  have tt: "time_total (locals st) = t - time_total s"
    using f unfolding finalize_Inr [OF assms(1)] Let_def by auto
  have z: "of_cint 0 = Fin 0" by (simp add: of_cint_def)
  from finalize_Done [OF f assms(2)] assms(3) tt f show ?thesis
    by (simp add: z fsub_def)
qed

lemma report_no_request:
  assumes "request (locals st) = 0" and "time_min (locals st) = LLONG_MAX"
    and "time_max (locals st) = LLONG_MIN" and "time_avg st = NaN" and "time_mdev st = NaN"
  shows "report c st =
     (if quiet c = 0
      then [Printf_header (path c),
            Printf_completed 0 (fdiv (of_llong (time_total (locals st))) (Fin 1000)),
            Printf_summary (Fin (9223372036854775807 / 1000)) NaN
                           (Fin (- 9223372036854775808 / 1000)) NaN]
      else [])"
  using assms by (simp add: report_def of_llong_def LLONG_MAX_def LLONG_MIN_def)

lemma fdiv_NaN: "fdiv NaN y = NaN"
  by (cases y) simp_all

text \<open>
  Claim C8. When the tests of lines 360--365 stop the loop in its first pass, no
  request has been recorded and line 426 divides by a request count of zero. The
  division is one of \<^verbatim>\<open>double\<close>s, \<open>0.0 / 0.0\<close>, and does not trap: the run returns with
  status 0, mean and deviation are NaN, and the summary is given these NaNs as they
  are.
\<close>

theorem finalize_without_requests_returns_nan:
  assumes "now (clock_start e) = Inr t0" and "now (clock_end e) = Inr t1"
    and "iters e = it # its"
    and "check_stop c (if sigint_top it then sig_exit (init t0) else init t0) it = Inr True"
  shows "\<exists>st. main c e = Some (Done st (report c st)) \<and>
     exit_status (Done st (report c st)) = Some 0 \<and>
     request (locals st) = 0 \<and> time_avg st = NaN \<and> time_mdev st = NaN \<and>
     report c st =
       (if quiet c = 0
        then [Printf_header (path c),
              Printf_completed 0 (fdiv (of_llong (t1 - t0)) (Fin 1000)),
              Printf_summary (fdiv (of_llong (time_min (locals st))) (Fin 1000)) NaN
                             (fdiv (of_llong (time_max (locals st))) (Fin 1000)) NaN]
        else [])"
proof -
  let ?s = "if sigint_top it then sig_exit (init t0) else init t0"
  have i: "iter c (init t0) it = Break ?s" using assms(4) by (simp add: iter_def Let_def)
  then have l: "loop c (init t0) (iters e) = Some (Done ?s [])" by (simp add: assms(3))
  have tot: "totals ?s = (Fin 0, Fin 0, LLONG_MAX, LLONG_MIN)"
    using iter_Break(1) [OF i] by (simp add: totals_init)
  have req: "request ?s = 0" using iter_Break(2) [OF i] by (simp add: init_def)
  have tt: "time_total ?s = t0" using iter_Break(3) [OF i] by (simp add: init_def)
  from finalize_no_request [OF assms(2) tot req, of c] obtain st where
    f: "finalize c ?s (clock_end e) = Done st (report c st)"
    and st: "request (locals st) = 0" "time_total (locals st) = t1 - time_total ?s"
      "time_avg st = NaN" "time_mdev st = NaN"
    by blast
  have m: "main c e = Some (Done st (report c st))"
    using assms(1) l f by (simp add: main_def)
  have r: "report c st =
       (if quiet c = 0
        then [Printf_header (path c),
              Printf_completed 0 (fdiv (of_llong (t1 - t0)) (Fin 1000)),
              Printf_summary (fdiv (of_llong (time_min (locals st))) (Fin 1000)) NaN
                             (fdiv (of_llong (time_max (locals st))) (Fin 1000)) NaN]
        else [])"
    unfolding report_def st tt by (simp add: fdiv_NaN)
  from m st r show ?thesis by auto
qed

text \<open>The run of three requests with \<^verbatim>\<open>-c -1\<close>: the count test stops the first pass.\<close>

theorem finalize_without_requests_returns_nan_witness:
  "now (clock_start fixture_env) = Inr 0 \<and> now (clock_end fixture_env) = Inr 500 \<and>
   iters fixture_env = fixture_iteration 100 110 #
     [fixture_iteration 200 220, fixture_iteration 300 330, fixture_iteration 400 440] \<and>
   check_stop (fixture_config\<lparr>count := - 1\<rparr>)
     (if sigint_top (fixture_iteration 100 110) then sig_exit (init 0) else init 0)
     (fixture_iteration 100 110) = Inr True \<and>
   (\<exists>st. main (fixture_config\<lparr>count := - 1\<rparr>) fixture_env =
       Some (Done st (report (fixture_config\<lparr>count := - 1\<rparr>) st)) \<and>
     exit_status (Done st (report (fixture_config\<lparr>count := - 1\<rparr>) st)) = Some 0 \<and>
     request (locals st) = 0 \<and> time_avg st = NaN \<and> time_mdev st = NaN \<and>
     report (fixture_config\<lparr>count := - 1\<rparr>) st =
       [Printf_header ''f'', Printf_completed 0 (fdiv (of_llong (500 - 0)) (Fin 1000)),
        Printf_summary (fdiv (of_llong (time_min (locals st))) (Fin 1000)) NaN
                       (fdiv (of_llong (time_max (locals st))) (Fin 1000)) NaN])"
proof -
  have h1: "now (clock_start fixture_env) = Inr 0" and h2: "now (clock_end fixture_env) = Inr 500"
    by (simp_all add: fixture_env_def now_def)
  have h3: "iters fixture_env = fixture_iteration 100 110 #
     [fixture_iteration 200 220, fixture_iteration 300 330, fixture_iteration 400 440]"
    by (simp add: fixture_env_def)
  have h4: "check_stop (fixture_config\<lparr>count := - 1\<rparr>)
     (if sigint_top (fixture_iteration 100 110) then sig_exit (init 0) else init 0)
     (fixture_iteration 100 110) = Inr True"
    by (simp add: fixture_config_def fixture_iteration_def init_def check_stop_def word_sle_eq)
  have q: "quiet (fixture_config\<lparr>count := - 1\<rparr>) = 0" "path (fixture_config\<lparr>count := - 1\<rparr>) = ''f''"
    by (simp_all add: fixture_config_def)
  from finalize_without_requests_returns_nan [OF h1 h2 h3 h4] h1 h2 h3 h4 show ?thesis
    unfolding q by simp
qed

text \<open>
  Claim C4, as the code has it. The summary of a run without samples is left out only
  when \<^verbatim>\<open>quiet\<close> is set. Otherwise it is printed, and nothing guards the initial
  values of lines 354--355: the minimum it shows is \<^verbatim>\<open>LLONG_MAX\<close> and the maximum
  \<^verbatim>\<open>LLONG_MIN\<close>, each divided by 1000, next to a mean and a deviation that are NaN.
\<close>

theorem no_samples_summary_shows_sentinels:
  assumes "main c e = Some (Done st out)" and "length (iters e) \<le> 2 ^ 31"
    and "request (locals st) = 0"
  shows "time_min (locals st) = LLONG_MAX \<and> time_max (locals st) = LLONG_MIN \<and>
     out = (if quiet c = 0
            then [Printf_header (path c),
                  Printf_completed 0 (fdiv (of_llong (time_total (locals st))) (Fin 1000)),
                  Printf_summary (fdiv (of_llong LLONG_MAX) (Fin 1000)) NaN
                                 (fdiv (of_llong LLONG_MIN) (Fin 1000)) NaN]
            else [])"
proof -
  from assms(1) obtain t0 sf es1 es2 where
    l: "loop c (init t0) (iters e) = Some (Done sf es1)" and
    f: "finalize c sf (clock_end e) = Done st es2" and out: "out = es1 @ es2"
    by (rule main_Done)
  from loop_Done_split [OF l] obtain pre it post s1 where
    its: "iters e = pre @ it # post" and a: "advance c (init t0) pre = Some (s1, es1)"
    and b: "iter c s1 it = Break sf"
    by blast
  obtain a' b' mn mx where tot: "totals sf = (a', b', mn, mx)" by (cases "totals sf") auto
  have "request sf = of_nat (length pre)"
    using advance_request [OF a] iter_Break(2) [OF b] by (simp add: init_def)
  with finalize_Done(5) [OF f tot] assms(3) have z: "(of_nat (length pre) :: cint) = 0" by simp
  have "length pre < 2 ^ 31" using its assms(2) by simp
  then have "unat (of_nat (length pre) :: cint) = length pre" by (rule unat_of_nat_small)
  with z have "pre = []" by simp
  with a have s1: "s1 = init t0" and es1: "es1 = []" by simp_all
  have tot0: "totals sf = (Fin 0, Fin 0, LLONG_MAX, LLONG_MIN)"
    using iter_Break(1) [OF b] by (simp add: s1 totals_init)
  have req: "request sf = 0" using iter_Break(2) [OF b] by (simp add: s1 init_def)
  from f obtain t where t: "now (clock_end e) = Inr t"
    by (cases "now (clock_end e)") (simp_all add: finalize_def)
  from finalize_no_request [OF t tot0 req, of c] f have
    es2: "es2 = report c st" and st: "request (locals st) = 0"
      "time_min (locals st) = LLONG_MAX" "time_max (locals st) = LLONG_MIN"
      "time_avg st = NaN" "time_mdev st = NaN"
    by auto
  have "report c st =
     (if quiet c = 0
      then [Printf_header (path c),
            Printf_completed 0 (fdiv (of_llong (time_total (locals st))) (Fin 1000)),
            Printf_summary (fdiv (of_llong LLONG_MAX) (Fin 1000)) NaN
                           (fdiv (of_llong LLONG_MIN) (Fin 1000)) NaN]
      else [])"
    unfolding report_def st by (simp add: fdiv_NaN)
  with out es1 es2 st show ?thesis by simp
qed

lemma main_interrupted:
  "main fixture_config interrupted_env =
     Some (Done interrupted_final
       [Printf_header ''f'', Printf_completed 0 (Fin (1 / 2)),
        Printf_summary (fdiv (of_llong LLONG_MAX) (Fin 1000)) NaN
                       (fdiv (of_llong LLONG_MIN) (Fin 1000)) NaN])"
  by (simp add: fixture_config_def interrupted_env_def interrupted_final_def
        fixture_iteration_def run_defs)

text \<open>The claim as stated fails: SIGINT stops the loop before the first request, and the
  summary is printed with \<^verbatim>\<open>LLONG_MAX / 1000.\<close> as the minimum and
  \<^verbatim>\<open>LLONG_MIN / 1000.\<close> as the maximum.\<close>

theorem interrupted_run_prints_sentinels:
  "main fixture_config interrupted_env =
     Some (Done interrupted_final
       [Printf_header ''f'', Printf_completed 0 (Fin (1 / 2)),
        Printf_summary (Fin (9223372036854775807 / 1000)) NaN
                       (Fin (- 9223372036854775808 / 1000)) NaN]) \<and>
   request (locals interrupted_final) = 0 \<and>
   sint LLONG_MAX = 9223372036854775807 \<and> sint LLONG_MIN = - 9223372036854775808"
  by (simp add: fixture_config_def interrupted_env_def interrupted_final_def
        fixture_iteration_def run_defs)

text \<open>The same run returns with \<^verbatim>\<open>request\<close> = 0.\<close>

theorem no_samples_summary_shows_sentinels_witness:
  "main fixture_config interrupted_env =
     Some (Done interrupted_final
       [Printf_header ''f'', Printf_completed 0 (Fin (1 / 2)),
        Printf_summary (fdiv (of_llong LLONG_MAX) (Fin 1000)) NaN
                       (fdiv (of_llong LLONG_MIN) (Fin 1000)) NaN]) \<and>
   length (iters interrupted_env) \<le> 2 ^ 31 \<and>
   request (locals interrupted_final) = 0 \<and>
   time_min (locals interrupted_final) = LLONG_MAX \<and>
   time_max (locals interrupted_final) = LLONG_MIN"
proof -
  have h2: "length (iters interrupted_env) \<le> 2 ^ 31" by (simp add: interrupted_env_def)
  have h3: "request (locals interrupted_final) = 0" by (simp add: interrupted_final_def)
  from no_samples_summary_shows_sentinels [OF main_interrupted h2 h3] main_interrupted h2 h3
  show ?thesis by simp
qed

subsection \<open>The standard deviation in exact arithmetic\<close>

lemma sum_list_two_bound:
  fixes xs :: "real list"
  shows "2 * a * sum_list xs \<le> real (length xs) * a\<^sup>2 + (\<Sum>x\<leftarrow>xs. x\<^sup>2)"
proof (induction xs)
  case Nil
  then show ?case by simp
next
  case (Cons x xs)
  have "2 * a * x \<le> a\<^sup>2 + x\<^sup>2" using sum_squares_bound [of a x] by (simp add: ac_simps)
  with Cons show ?case by (simp add: algebra_simps)
qed

lemma sum_list_square_bound:
  fixes xs :: "real list"
  shows "(sum_list xs)\<^sup>2 \<le> real (length xs) * (\<Sum>x\<leftarrow>xs. x\<^sup>2)"
proof (induction xs)
  case Nil
  then show ?case by simp
next
  case (Cons x xs)
  have "(x + sum_list xs)\<^sup>2 = x\<^sup>2 + 2 * x * sum_list xs + (sum_list xs)\<^sup>2"
    by (simp add: power2_sum)
  also have "\<dots> \<le> x\<^sup>2 + (real (length xs) * x\<^sup>2 + (\<Sum>y\<leftarrow>xs. y\<^sup>2)) +
      real (length xs) * (\<Sum>y\<leftarrow>xs. y\<^sup>2)"
    using sum_list_two_bound [of x xs] Cons by simp
  finally show ?case by (simp add: algebra_simps)
qed

lemma variance_nonneg:
  fixes xs :: "real list"
  assumes "xs \<noteq> []"
  shows "0 \<le> (\<Sum>x\<leftarrow>xs. x\<^sup>2) / real (length xs) - (mean xs)\<^sup>2"
proof -
  let ?n = "real (length xs)"
  have n: "0 < ?n" using assms by simp
  have "(sum_list xs)\<^sup>2 / ?n\<^sup>2 \<le> (?n * (\<Sum>x\<leftarrow>xs. x\<^sup>2)) / ?n\<^sup>2"
    using sum_list_square_bound [of xs] n by (simp add: divide_right_mono)
  also have "\<dots> = (\<Sum>x\<leftarrow>xs. x\<^sup>2) / ?n" using n by (simp add: power2_eq_square)
  finally show ?thesis by (simp add: mean_def power_divide)
qed

lemma sum_list_deviations:
  fixes xs :: "real list"
  shows "(\<Sum>x\<leftarrow>xs. (x - m)\<^sup>2) =
     (\<Sum>x\<leftarrow>xs. x\<^sup>2) - 2 * m * sum_list xs + real (length xs) * m\<^sup>2"
  by (induction xs) (simp_all add: power2_diff algebra_simps)

lemma population_sd_deviations:
  assumes "xs \<noteq> []"
  shows "population_sd xs = sqrt ((\<Sum>x\<leftarrow>xs. (x - mean xs)\<^sup>2) / real (length xs))"
proof -
  let ?n = "real (length xs)"
  have n: "?n \<noteq> 0" using assms by simp
  have s: "sum_list xs = ?n * mean xs" using n by (simp add: mean_def)
  have "(\<Sum>x\<leftarrow>xs. (x - mean xs)\<^sup>2) = (\<Sum>x\<leftarrow>xs. x\<^sup>2) - ?n * (mean xs)\<^sup>2"
    unfolding sum_list_deviations s by (simp add: power2_eq_square algebra_simps)
  then have "(\<Sum>x\<leftarrow>xs. (x - mean xs)\<^sup>2) / ?n = (\<Sum>x\<leftarrow>xs. x\<^sup>2) / ?n - (mean xs)\<^sup>2"
    using n by (simp add: diff_divide_distrib)
  then show ?thesis by (simp add: population_sd_def)
qed

lemma sint_square:
  fixes t :: llong
  assumes "(sint t)\<^sup>2 < 2 ^ 63"
  shows "sint (t * t) = (sint t)\<^sup>2"
proof -
  have "sint (t * t) = signed_take_bit 63 (sint t * sint t)"
    by (simp add: sint_word_ariths)
  also have "\<dots> = sint t * sint t"
  proof (rule signed_take_bit_int_eq_self)
    have "- (2 ^ 63) \<le> (0::int)" by simp
    also have "0 \<le> sint t * sint t" by simp
    finally show "- (2 ^ 63) \<le> sint t * sint t" .
    show "sint t * sint t < 2 ^ 63" using assms by (simp add: power2_eq_square)
  qed
  finally show ?thesis by (simp add: power2_eq_square)
qed

lemma fsqrt_variance:
  assumes "xs \<noteq> []"
  shows "fsqrt (fsub (fdiv (Fin (\<Sum>x\<leftarrow>xs. x\<^sup>2)) (Fin (real (length xs))))
           (fmul (Fin (mean xs)) (Fin (mean xs)))) = Fin (population_sd xs)"
proof -
  have "real (length xs) \<noteq> 0" using assms by simp
  moreover have "\<not> (\<Sum>x\<leftarrow>xs. x\<^sup>2) / real (length xs) - (mean xs)\<^sup>2 < 0"
    using variance_nonneg [OF assms] by simp
  ultimately show ?thesis
    by (simp add: fsub_def population_sd_def power2_eq_square)
qed

lemma usec_square:
  assumes "square_fits t"
  shows "real_of_int (sint (t * t)) = (usec t)\<^sup>2"
proof -
  have "sint (t * t) = (sint t)\<^sup>2" using assms unfolding square_fits_def by (rule sint_square)
  then show ?thesis by (simp only: usec_def of_int_power)
qed

lemma sum_list_squares:
  assumes "list_all square_fits ts"
  shows "(\<Sum>t\<leftarrow>ts. real_of_int (sint (t * t))) = (\<Sum>x\<leftarrow>map usec ts. x\<^sup>2)"
  using assms
proof (induction ts)
  case Nil
  show ?case by simp
next
  case (Cons t ts)
  then have "square_fits t" and "list_all square_fits ts" by simp_all
  with Cons.IH usec_square [of t] show ?case
    by (simp only: list.map sum_list.Cons)
qed

lemma sum_list_usec: "(\<Sum>t\<leftarrow>ts. real_of_int (sint t)) = sum_list (map usec ts)"
  by (induction ts) (simp_all add: usec_def)

lemma run_deviation:
  assumes "main c e = Some (Done st out)" and "length (iters e) \<le> 2 ^ 31"
    and "request (locals st) \<noteq> 0"
    and "list_all square_fits (samples e (unat (request (locals st))))"
  shows "time_avg st = Fin (mean (map usec (samples e (unat (request (locals st)))))) \<and>
         time_mdev st = Fin (population_sd (map usec (samples e (unat (request (locals st))))))"
proof -
  from assms(1,2) obtain k where k: "k < length (iters e)"
    and N: "unat (request (locals st)) = k"
    and avg: "time_avg st =
           fdiv (Fin (\<Sum>t\<leftarrow>map this_time_of (take k (iters e)). real_of_int (sint t))) (Fin (real k))"
    and mdev: "time_mdev st =
           fsqrt (fsub
             (fdiv (Fin (\<Sum>t\<leftarrow>map this_time_of (take k (iters e)). real_of_int (sint (t * t))))
                   (Fin (real k)))
             (fmul (time_avg st) (time_avg st)))"
    by (rule main_Done_totals)
  let ?ts = "samples e k"
  have ts: "map this_time_of (take k (iters e)) = ?ts" by (simp add: samples_def)
  have k0: "k \<noteq> 0" using N assms(3) unat_gt_0 [of "request (locals st)"] by simp
  have len: "length (map usec ?ts) = k" using k by (simp add: samples_def)
  have ne: "map usec ?ts \<noteq> []" using len k0 by auto
  have sq: "(\<Sum>t\<leftarrow>?ts. real_of_int (sint (t * t))) = (\<Sum>x\<leftarrow>map usec ?ts. x\<^sup>2)"
    using assms(4) unfolding N by (rule sum_list_squares)
  have avg': "time_avg st = Fin (mean (map usec ?ts))"
    using k0 unfolding avg ts sum_list_usec mean_def len by simp
  have "time_mdev st = Fin (population_sd (map usec ?ts))"
    unfolding mdev ts sq avg' using fsqrt_variance [OF ne] unfolding len by simp
  with avg' show ?thesis unfolding N by simp
qed

lemma population_sd_fixture:
  "mean [10, 20, 30] = 20"
  "population_sd [10, 20, 30] = sqrt (200 / 3)"
  by (simp_all add: mean_def population_sd_def)


lemma sample_sd_fixture: "sample_sd [10, 20, 30] = 10"
  by (simp add: sample_sd_def mean_def)

lemma population_not_sample_fixture: "population_sd [10, 20, 30] \<noteq> sample_sd [10, 20, 30]"
proof
  assume "population_sd [10, 20, 30] = sample_sd [10, 20, 30]"
  then have "sqrt (200 / 3) = (10::real)"
    by (simp only: population_sd_fixture sample_sd_fixture)
  then have "(sqrt (200 / 3))\<^sup>2 = (10::real)\<^sup>2" by (rule arg_cong)
  then show False by simp
qed

subsection \<open>One pass through the loop\<close>

lemma window_due_no_trap:
  assumes "\<not> (request s = INT_MIN \<and> period c = - 1)"
  shows "\<exists>due. window_due c s = Inr due"
  using assms by (auto simp: window_due_def c_rem_def)

lemma body_read_not_fatal:
  assumes "cached c \<noteq> 0 \<or> fadvise_ret it = 0"
    and "now (tv_before it) = Inr t0" and "now (tv_after it) = Inr t1"
    and "\<not> (pread_ret it <s 0 \<and> pread_errno it \<noteq> EINTR)"
    and "\<not> (request s + 1 = INT_MIN \<and> period c = - 1)"
  shows "\<exists>es. body c s it =
     Continue
       (let s1 = record_sample (t1 - t0) (s\<lparr>request := request s + 1\<rparr>);
            s2 = (if window_due c s1 = Inr True then fst (flush_window c s1) else s1)
        in if sigint_body it then sig_exit s2 else s2) es \<and>
     (quiet c = 0 \<longrightarrow>
        Printf_request (pread_ret it) (path c) (fstype c) (device c) (request s + 1)
          (fdiv (of_llong (t1 - t0)) (Fin 1000)) \<in> set es)"
proof -
  let ?s1 = "record_sample (t1 - t0) (s\<lparr>request := request s + 1\<rparr>)"
  have "\<not> (request ?s1 = INT_MIN \<and> period c = - 1)" using assms(5) by simp
  from window_due_no_trap [OF this] obtain due where due: "window_due c ?s1 = Inr due"
    by blast
  show ?thesis
    using assms(1-4) due
    by (cases due) (auto simp: body_def Let_def split_def)
qed

lemma check_stop_interrupted_read:
  "check_stop fixture_config
     (if sigint_top interrupted_read then sig_exit one_sample else one_sample)
     interrupted_read = Inr False"
  by (simp add: one_sample_def interrupted_read_def fixture_iteration_def fixture_config_def
        check_stop_def word_sle_eq)

text \<open>
  Claim C6. At the top of a pass the tests are made in the order signal, request
  count, deadline, and each one that holds leaves the loop without looking at the
  later ones: after a SIGINT the loop is left whatever count, deadline and clock are
  (the clock is not read); with the count reached it is left whatever deadline and
  clock are; with the deadline reached it is left. A pass that leaves the loop
  issues no request: \<^verbatim>\<open>request\<close> keeps its value, nothing is printed, and the rest of
  the environment is not consulted. A pass that goes through the body had none of
  the three conditions.
\<close>

theorem stop_tests_in_order:
  "(exiting s \<noteq> 0 \<or> sigint_top it \<longrightarrow>
      iter c s it = Break (if sigint_top it then sig_exit s else s)) \<and>
   (exiting s = 0 \<and> \<not> sigint_top it \<and> count c \<noteq> 0 \<and> count c \<le>s request s \<longrightarrow>
      iter c s it = Break s) \<and>
   (exiting s = 0 \<and> \<not> sigint_top it \<and> \<not> (count c \<noteq> 0 \<and> count c \<le>s request s) \<and>
    deadline c \<noteq> 0 \<and> now (tv_deadline it) = Inr t \<and> deadline c \<le>s t \<longrightarrow>
      iter c s it = Break s) \<and>
   (iter c s it = Break s' \<longrightarrow>
      loop c s (it # its) = Some (Done s' []) \<and> request s' = request s) \<and>
   (iter c s it = Continue s' es \<longrightarrow>
      exiting s = 0 \<and> \<not> sigint_top it \<and> (count c = 0 \<or> request s <s count c) \<and>
      (deadline c = 0 \<or> (\<exists>t. now (tv_deadline it) = Inr t \<and> t <s deadline c)) \<and>
      request s' = request s + 1)"
proof (intro conjI impI)
  assume "exiting s \<noteq> 0 \<or> sigint_top it"
  then show "iter c s it = Break (if sigint_top it then sig_exit s else s)"
    by (auto simp: iter_def check_stop_def Let_def)
next
  assume "exiting s = 0 \<and> \<not> sigint_top it \<and> count c \<noteq> 0 \<and> count c \<le>s request s"
  then show "iter c s it = Break s"
    by (simp add: iter_def check_stop_def Let_def)
next
  assume "exiting s = 0 \<and> \<not> sigint_top it \<and> \<not> (count c \<noteq> 0 \<and> count c \<le>s request s) \<and>
    deadline c \<noteq> 0 \<and> now (tv_deadline it) = Inr t \<and> deadline c \<le>s t"
  then show "iter c s it = Break s"
    by (auto simp: iter_def check_stop_def Let_def)
next
  assume "iter c s it = Break s'"
  then show "loop c s (it # its) = Some (Done s' [])" by simp
next
  assume "iter c s it = Break s'"
  then show "request s' = request s" by (rule iter_Break(2))
next
  assume i: "iter c s it = Continue s' es"
  let ?s = "if sigint_top it then sig_exit s else s"
  from i have cs: "check_stop c ?s it = Inr False"
    by (auto simp: iter_def Let_def split: sum.splits bool.splits if_splits)
  then have e: "exiting ?s = 0" by (auto simp: check_stop_def split: if_splits)
  then show "\<not> sigint_top it" by (auto split: if_splits)
  with e show "exiting s = 0" by simp
  from cs show "count c = 0 \<or> request s <s count c"
    by (auto simp: check_stop_def word_sless_alt word_sle_eq split: if_splits)
  from cs show "deadline c = 0 \<or> (\<exists>t. now (tv_deadline it) = Inr t \<and> t <s deadline c)"
    by (auto simp: check_stop_def word_sless_alt word_sle_eq split: if_splits sum.splits)
  from i show "request s' = request s + 1" by (rule iter_Continue(2))
qed

text \<open>Passes that stop at the signal, at the count and at the deadline, and the first pass
  of the run of three requests, which goes through the body.\<close>

theorem stop_tests_in_order_witness:
  "sigint_top stopping_pass \<and> count fixture_config \<noteq> 0 \<and>
   count fixture_config \<le>s request fixture_final_vars \<and>
   tv_deadline stopping_pass = None \<and>
   iter fixture_config fixture_final_vars stopping_pass = Break (sig_exit fixture_final_vars) \<and>
   exiting fixture_final_vars = 0 \<and> \<not> sigint_top (fixture_iteration 400 440) \<and>
   iter fixture_config fixture_final_vars (fixture_iteration 400 440) = Break fixture_final_vars \<and>
   count (fixture_config\<lparr>count := 0, deadline := 350\<rparr>) = 0 \<and>
   deadline (fixture_config\<lparr>count := 0, deadline := 350\<rparr>) \<noteq> 0 \<and>
   now (tv_deadline deadline_pass) = Inr 400 \<and>
   deadline (fixture_config\<lparr>count := 0, deadline := 350\<rparr>) \<le>s 400 \<and>
   iter (fixture_config\<lparr>count := 0, deadline := 350\<rparr>) fixture_final_vars deadline_pass =
     Break fixture_final_vars \<and>
   loop fixture_config fixture_final_vars (stopping_pass # [fixture_iteration 300 330]) =
     Some (Done (sig_exit fixture_final_vars) []) \<and>
   request (sig_exit fixture_final_vars) = request fixture_final_vars \<and>
   iter fixture_config (init 0) (fixture_iteration 100 110) = Continue one_sample one_sample_out \<and>
   exiting (init 0) = 0 \<and> \<not> sigint_top (fixture_iteration 100 110) \<and>
   request (init 0) <s count fixture_config \<and> deadline fixture_config = 0 \<and>
   request one_sample = request (init 0) + 1"
proof -
  let ?d = "fixture_config\<lparr>count := 0, deadline := 350\<rparr>"
  have h1: "sigint_top stopping_pass" and h2: "tv_deadline stopping_pass = None"
    by (simp_all add: stopping_pass_def)
  have h3: "count fixture_config \<noteq> 0" "count fixture_config \<le>s request fixture_final_vars"
    "deadline fixture_config = 0"
    by (simp_all add: fixture_config_def fixture_final_vars_def word_sle_eq)
  have h4: "exiting fixture_final_vars = 0" "\<not> sigint_top (fixture_iteration 400 440)"
    "\<not> sigint_top deadline_pass"
    by (simp_all add: fixture_final_vars_def fixture_iteration_def deadline_pass_def)
  have h5: "count ?d = 0" "deadline ?d \<noteq> 0" "now (tv_deadline deadline_pass) = Inr 400"
    "deadline ?d \<le>s 400"
    by (simp_all add: fixture_config_def deadline_pass_def now_def word_sle_eq)
  have i: "iter fixture_config (init 0) (fixture_iteration 100 110) =
      Continue one_sample one_sample_out"
    using advance_fixture_1 by (auto split: step.splits option.splits)
  note t1 = stop_tests_in_order [of fixture_final_vars stopping_pass fixture_config _
      "sig_exit fixture_final_vars" "[fixture_iteration 300 330]"]
  note t2 = stop_tests_in_order [of "init 0" "fixture_iteration 100 110" fixture_config _
      one_sample _ one_sample_out]
  note t3 = stop_tests_in_order [of fixture_final_vars "fixture_iteration 400 440"
      fixture_config]
  note t4 = stop_tests_in_order [of fixture_final_vars deadline_pass ?d 400]
  have b: "iter fixture_config fixture_final_vars stopping_pass = Break (sig_exit fixture_final_vars)"
    using t1 h1 by simp
  have b3: "iter fixture_config fixture_final_vars (fixture_iteration 400 440) =
      Break fixture_final_vars"
    using t3 h3(1,2) h4(1,2) by blast
  have b4: "iter ?d fixture_final_vars deadline_pass = Break fixture_final_vars"
    using t4 h4(1,3) h5 by blast
  from t1 b have l: "loop fixture_config fixture_final_vars
      (stopping_pass # [fixture_iteration 300 330]) = Some (Done (sig_exit fixture_final_vars) [])"
    "request (sig_exit fixture_final_vars) = request fixture_final_vars"
    by blast+
  from t2 i h3(3) have c: "exiting (init 0) = 0" "\<not> sigint_top (fixture_iteration 100 110)"
    "request (init 0) <s count fixture_config" "request one_sample = request (init 0) + 1"
    using h3(1) by blast+
  from h1 h2 h3 h4(1,2) h5 i b b3 b4 l c show ?thesis by (intro conjI)
qed

subsection \<open>Runs without a window period\<close>

lemma now_not_Sigfpe: "now g \<noteq> Inl Sigfpe"
  by (simp add: now_def split: option.splits)

lemma body_without_period:
  assumes "period c = 0"
  shows "body c s it = Continue s' es \<Longrightarrow> filter raw_line es = []"
    and "body c s it = Fatal f es \<Longrightarrow> f \<noteq> Sigfpe \<and> filter raw_line es = []"
  using assms now_not_Sigfpe [of "tv_before it"] now_not_Sigfpe [of "tv_after it"]
  by (auto simp: body_def window_due_def Let_def split: sum.splits if_splits)

lemma iter_without_period:
  assumes "period c = 0"
  shows "iter c s it = Continue s' es \<Longrightarrow> filter raw_line es = []"
    and "iter c s it = Fatal f es \<Longrightarrow> f \<noteq> Sigfpe \<and> filter raw_line es = []"
proof -
  let ?s = "if sigint_top it then sig_exit s else s"
  show "iter c s it = Continue s' es \<Longrightarrow> filter raw_line es = []"
    using body_without_period(1) [OF assms, of ?s it s' es]
    by (auto simp: iter_def Let_def split: sum.splits bool.splits)
  have "check_stop c ?s it \<noteq> Inl Sigfpe"
    using now_not_Sigfpe [of "tv_deadline it"]
    by (auto simp: check_stop_def split: sum.splits)
  then show "iter c s it = Fatal f es \<Longrightarrow> f \<noteq> Sigfpe \<and> filter raw_line es = []"
    using body_without_period(2) [OF assms, of ?s it f es]
    by (auto simp: iter_def Let_def split: sum.splits bool.splits)
qed

lemma loop_without_period:
  assumes "period c = 0"
  shows "loop c s its = Some r \<Longrightarrow>
     filter raw_line (effects r) = [] \<and> (\<forall>out. r \<noteq> Died Sigfpe out)"
proof (induction its arbitrary: s r)
  case Nil
  then show ?case by simp
next
  case (Cons it its)
  show ?case
  proof (cases "iter c s it")
    case (Continue s1 es1)
    with Cons.prems obtain r1 where l: "loop c s1 its = Some r1" and r: "r = emit es1 r1"
      by (cases "loop c s1 its") auto
    from Cons.IH [OF l] iter_without_period(1) [OF assms Continue] r show ?thesis
      by (cases r1) auto
  next
    case (Break s1)
    with Cons.prems show ?thesis by auto
  next
    case (Fatal f es1)
    with Cons.prems iter_without_period(2) [OF assms Fatal] show ?thesis by auto
  qed
qed

lemma report_no_raw_line: "filter raw_line (report c st) = []"
  by (simp add: report_def)

lemma finalize_no_raw_line:
  "filter raw_line (effects (finalize c s g)) = [] \<and> (\<forall>out. finalize c s g \<noteq> Died Sigfpe out)"
  using now_not_Sigfpe [of g]
  by (cases "now g") (simp_all add: finalize_def Let_def report_no_raw_line)

text \<open>
  Claim C9. The remainder of line 394 is taken only when \<^verbatim>\<open>period\<close> is not zero (a
  remainder by zero would trap): with \<^verbatim>\<open>period\<close> zero the condition is false without
  it, and a run never dies of the trap and never prints a raw statistics line.
\<close>

theorem no_window_without_period:
  "c_rem a 0 = Inl Sigfpe \<and>
   (period c = 0 \<longrightarrow> window_due c s = Inr False) \<and>
   (period c = 0 \<and> main c e = Some r \<longrightarrow>
      filter raw_line (effects r) = [] \<and> (\<forall>out. r \<noteq> Died Sigfpe out))"
proof (intro conjI impI)
  show "c_rem a 0 = Inl Sigfpe" by (simp add: c_rem_def)
  show "window_due c s = Inr False" if "period c = 0" using that by (simp add: window_due_def)
  assume a: "period c = 0 \<and> main c e = Some r"
  then have p: "period c = 0" and m: "main c e = Some r" by simp_all
  show "filter raw_line (effects r) = []" and "\<forall>out. r \<noteq> Died Sigfpe out"
  proof -
    have "filter raw_line (effects r) = [] \<and> (\<forall>out. r \<noteq> Died Sigfpe out)"
    proof (cases "now (clock_start e)")
      case (Inl f)
      with m now_not_Sigfpe [of "clock_start e"] show ?thesis by (auto simp: main_def)
    next
      case (Inr t)
      with m obtain r1 where l: "loop c (init t) (iters e) = Some r1"
        by (cases "loop c (init t) (iters e)") (simp_all add: main_def)
      note lw = loop_without_period [OF p l]
      show ?thesis
      proof (cases r1)
        case (Died f es)
        with m Inr l lw show ?thesis by (auto simp: main_def)
      next
        case (Done sf es)
        with m Inr l have r: "r = emit es (finalize c sf (clock_end e))"
          by (simp add: main_def)
        from lw Done have "filter raw_line es = []" by simp
        with finalize_no_raw_line [of c sf "clock_end e"] r show ?thesis
          by (cases "finalize c sf (clock_end e)") auto
      qed
    qed
    then show "filter raw_line (effects r) = []" and "\<forall>out. r \<noteq> Died Sigfpe out"
      by simp_all
  qed
qed

lemma main_fixture_no_period:
  "main (fixture_config\<lparr>period := 0\<rparr>) fixture_env =
     Some (Done no_period_final
       [Printf_request 512 ''f'' ''ext4'' ''/dev/sda'' 1 (Fin (1 / 100)), Usleep 1000000,
        Printf_request 512 ''f'' ''ext4'' ''/dev/sda'' 2 (Fin (1 / 50)), Usleep 1000000,
        Printf_request 512 ''f'' ''ext4'' ''/dev/sda'' 3 (Fin (3 / 100)), Usleep 1000000,
        Printf_header ''f'', Printf_completed 3 (Fin (1 / 2)),
        Printf_summary (Fin (1 / 100)) (Fin (1 / 50)) (Fin (3 / 100))
          (Fin (sqrt (200 / 3) / 1000))])"
  by (simp add: fixture_config_def fixture_env_def fixture_iteration_def no_period_final_def
        run_defs)

text \<open>The run of three requests with \<^verbatim>\<open>period\<close> zero.\<close>

theorem no_window_without_period_witness:
  "period (fixture_config\<lparr>period := 0\<rparr>) = 0 \<and>
   window_due (fixture_config\<lparr>period := 0\<rparr>) one_sample = Inr False \<and>
   main (fixture_config\<lparr>period := 0\<rparr>) fixture_env =
     Some (Done no_period_final
       [Printf_request 512 ''f'' ''ext4'' ''/dev/sda'' 1 (Fin (1 / 100)), Usleep 1000000,
        Printf_request 512 ''f'' ''ext4'' ''/dev/sda'' 2 (Fin (1 / 50)), Usleep 1000000,
        Printf_request 512 ''f'' ''ext4'' ''/dev/sda'' 3 (Fin (3 / 100)), Usleep 1000000,
        Printf_header ''f'', Printf_completed 3 (Fin (1 / 2)),
        Printf_summary (Fin (1 / 100)) (Fin (1 / 50)) (Fin (3 / 100))
          (Fin (sqrt (200 / 3) / 1000))]) \<and>
   filter raw_line
       [Printf_request 512 ''f'' ''ext4'' ''/dev/sda'' 1 (Fin (1 / 100)), Usleep 1000000,
        Printf_request 512 ''f'' ''ext4'' ''/dev/sda'' 2 (Fin (1 / 50)), Usleep 1000000,
        Printf_request 512 ''f'' ''ext4'' ''/dev/sda'' 3 (Fin (3 / 100)), Usleep 1000000,
        Printf_header ''f'', Printf_completed 3 (Fin (1 / 2)),
        Printf_summary (Fin (1 / 100)) (Fin (1 / 50)) (Fin (3 / 100))
          (Fin (sqrt (200 / 3) / 1000))] = []"
proof -
  have p: "period (fixture_config\<lparr>period := 0\<rparr>) = 0" by simp
  note t = no_window_without_period [of _ "fixture_config\<lparr>period := 0\<rparr>" one_sample
      fixture_env]
  from t p main_fixture_no_period show ?thesis by simp
qed

subsection \<open>Quiet runs\<close>

lemma flush_window_quiet:
  "flush_window (c\<lparr>quiet := q\<rparr>) s = flush_window c s"
  "filter (\<lambda>x. \<not> human_line x) (snd (flush_window c s)) = snd (flush_window c s)"
  by (simp_all add: flush_window_def Let_def human_line_def)


lemma window_due_quiet: "window_due (c\<lparr>quiet := q\<rparr>) s = window_due c s"
  by (simp add: window_due_def)

lemma human_line_simps [simp]:
  "human_line (Printf_request n p f d r t)"
  "\<not> human_line (Printf_raw mn avg mx mdev)"
  "\<not> human_line (Usleep u)"
  "human_line (Printf_header p')"
  "human_line (Printf_completed r' t')"
  "human_line (Printf_summary mn' avg' mx' mdev')"
  by (simp_all add: human_line_def)

lemma body_quiet:
  assumes "q \<noteq> 0"
  shows "body (c\<lparr>quiet := q\<rparr>) s it = map_step (filter (\<lambda>x. \<not> human_line x)) (body c s it)"
proof (cases "cached c = 0 \<and> fadvise_ret it \<noteq> 0")
  case True
  then show ?thesis by (simp add: body_def)
next
  case nf: False
  show ?thesis
  proof (cases "now (tv_before it)")
    case (Inl f)
    with nf show ?thesis by (auto simp: body_def Let_def)
  next
    case t0: (Inr t0)
    show ?thesis
    proof (cases "pread_ret it <s 0 \<and> pread_errno it \<noteq> EINTR")
      case True
      with nf t0 show ?thesis by (auto simp: body_def Let_def)
    next
      case nr: False
      show ?thesis
      proof (cases "now (tv_after it)")
        case (Inl f)
        with nf t0 nr show ?thesis by (auto simp: body_def Let_def)
      next
        case t1: (Inr t1)
        show ?thesis
        proof (cases "window_due c (record_sample (t1 - t0) (s\<lparr>request := request s + 1\<rparr>))")
          case (Inl f)
          with nf t0 nr t1 assms show ?thesis
            by (auto simp: body_def Let_def window_due_quiet)
        next
          case (Inr due)
          with nf t0 nr t1 assms show ?thesis
            by (auto simp: body_def Let_def split_def window_due_quiet flush_window_quiet)
        qed
      qed
    qed
  qed
qed

lemma check_stop_quiet: "check_stop (c\<lparr>quiet := q\<rparr>) s it = check_stop c s it"
  by (simp add: check_stop_def split: sum.splits)

lemma iter_quiet:
  assumes "q \<noteq> 0"
  shows "iter (c\<lparr>quiet := q\<rparr>) s it = map_step (filter (\<lambda>x. \<not> human_line x)) (iter c s it)"
  by (simp add: iter_def Let_def check_stop_quiet body_quiet [OF assms]
      split: sum.splits bool.splits)

lemma map_effects_emit:
  "map_effects (filter P) (emit es r) = emit (filter P es) (map_effects (filter P) r)"
  by (cases r) simp_all

lemma loop_quiet:
  assumes "q \<noteq> 0"
  shows "loop (c\<lparr>quiet := q\<rparr>) s its =
     map_option (map_effects (filter (\<lambda>x. \<not> human_line x))) (loop c s its)"
proof (induction its arbitrary: s)
  case Nil
  show ?case by simp
next
  case (Cons it its)
  show ?case
    by (cases "iter c s it")
      (simp_all add: iter_quiet [OF assms] Cons.IH option.map_comp comp_def map_effects_emit)
qed

lemma report_quiet:
  "q \<noteq> 0 \<Longrightarrow> report (c\<lparr>quiet := q\<rparr>) st = filter (\<lambda>x. \<not> human_line x) (report c st)"
  by (simp add: report_def)

lemma finalize_quiet:
  assumes "q \<noteq> 0"
  shows "finalize (c\<lparr>quiet := q\<rparr>) s g =
     map_effects (filter (\<lambda>x. \<not> human_line x)) (finalize c s g)"
  by (cases "now g") (simp_all add: finalize_def Let_def report_quiet [OF assms])

lemma main_quiet:
  assumes "q \<noteq> 0"
  shows "main (c\<lparr>quiet := q\<rparr>) e =
     map_option (map_effects (filter (\<lambda>x. \<not> human_line x))) (main c e)"
proof (cases "now (clock_start e)")
  case (Inl f)
  then show ?thesis by (simp add: main_def)
next
  case (Inr t)
  show ?thesis
  proof (cases "loop c (init t) (iters e)")
    case None
    with Inr show ?thesis by (simp add: main_def loop_quiet [OF assms])
  next
    case (Some r)
    with Inr show ?thesis
      by (cases r)
        (simp_all add: main_def loop_quiet [OF assms] finalize_quiet [OF assms] map_effects_emit)
  qed
qed

lemma raw_lines_of_filtered:
  "filter raw_line (effects (map_effects (filter (\<lambda>x. \<not> human_line x)) r)) =
   filter raw_line (effects r)"
proof -
  have "\<not> human_line x \<and> raw_line x \<longleftrightarrow> raw_line x" for x
    by (cases x) (simp_all add: human_line_def)
  then show ?thesis by (cases r) simp_all
qed

text \<open>
  Claim C10. A run with \<^verbatim>\<open>quiet\<close> set is the run without it with the request lines and
  the lines of the summary taken out, and nothing else changed: the same outcome,
  the same variables, and the same raw statistics lines of the windows, which are
  printed whether \<^verbatim>\<open>quiet\<close> is set or not.
\<close>

theorem quiet_removes_only_human_lines:
  assumes "q \<noteq> 0"
  shows "main (c\<lparr>quiet := q\<rparr>) e =
           map_option (map_effects (filter (\<lambda>x. \<not> human_line x))) (main c e) \<and>
         map_option (\<lambda>r. filter raw_line (effects r)) (main (c\<lparr>quiet := q\<rparr>) e) =
           map_option (\<lambda>r. filter raw_line (effects r)) (main c e)"
  unfolding main_quiet [OF assms]
  by (simp add: option.map_comp comp_def raw_lines_of_filtered)

text \<open>The run of three requests with \<^verbatim>\<open>-q\<close>: the raw line of its window is printed, the
  request lines and the summary are not.\<close>

theorem quiet_removes_only_human_lines_witness:
  "(1 :: cint) \<noteq> 0 \<and>
   main fixture_config fixture_env = Some (Done fixture_final fixture_out) \<and>
   main (fixture_config\<lparr>quiet := 1\<rparr>) fixture_env =
     Some (Done fixture_final
       [Usleep 1000000, Usleep 1000000,
        Printf_raw 10 (Fin 20) 30 (Fin (sqrt (200 / 3))), Usleep 1000000]) \<and>
   filter raw_line fixture_out = [Printf_raw 10 (Fin 20) 30 (Fin (sqrt (200 / 3)))]"
proof -
  have q: "(1 :: cint) \<noteq> 0" by simp
  have f: "filter (\<lambda>x. \<not> human_line x) fixture_out =
      [Usleep 1000000, Usleep 1000000,
       Printf_raw 10 (Fin 20) 30 (Fin (sqrt (200 / 3))), Usleep 1000000]"
    by (simp add: fixture_out_def)
  have r: "filter raw_line fixture_out = [Printf_raw 10 (Fin 20) 30 (Fin (sqrt (200 / 3)))]"
    by (simp add: fixture_out_def)
  from quiet_removes_only_human_lines [OF q, of fixture_config fixture_env] q main_fixture f r
  show ?thesis by simp
qed

subsection \<open>The windows of a run\<close>

lemma window_of_Nil [simp]: "window_of p [] = []"
  by (simp add: window_of_def)

lemma window_of_snoc:
  assumes "0 < p"
  shows "window_of p (xs @ [x]) =
     (if Suc (length xs) mod p = 0 then [] else window_of p xs @ [x])"
proof (cases "Suc (length xs) mod p = 0")
  case True
  then show ?thesis by (simp add: window_of_def)
next
  case False
  then have "Suc (length xs) mod p = Suc (length xs mod p)"
    using mod_Suc [of "length xs" p] by (simp split: if_splits)
  moreover have "length xs mod p \<le> length xs" by (rule mod_less_eq_dividend)
  ultimately show ?thesis using False by (simp add: window_of_def)
qed

lemma length_window_of: "length (window_of p xs) = length xs mod p"
proof -
  have "length xs mod p \<le> length xs" by (rule mod_less_eq_dividend)
  then show ?thesis by (simp add: window_of_def)
qed

lemma part_totals_record_sample:
  "part_totals (record_sample t s) = add_sample t (part_totals s)"
  by (simp add: part_totals_def record_sample_def Let_def)

lemma part_totals_flush_window:
  "part_totals (fst (flush_window c s)) = (Fin 0, Fin 0, LLONG_MAX, LLONG_MIN)"
  by (simp add: part_totals_def flush_window_def Let_def)

lemma part_totals_frame [simp]:
  "part_totals (sig_exit s) = part_totals s"
  "part_totals (s\<lparr>request := n\<rparr>) = part_totals s"
  by (simp_all add: part_totals_def sig_exit_def)

lemma part_totals_init: "part_totals (init t) = (Fin 0, Fin 0, LLONG_MAX, LLONG_MIN)"
  by (simp add: part_totals_def init_def)

lemma snd_flush_window: "snd (flush_window c s) = [raw_stats (period c) (part_totals s)]"
  by (simp add: flush_window_def part_totals_def Let_def)

lemma raw_line_raw_stats [simp]: "raw_line (raw_stats n x)"
  by (cases x) simp

lemma window_due_request: "request x = request y \<Longrightarrow> window_due c x = window_due c y"
  by (simp add: window_due_def)

text \<open>The shape of a pass that completes.\<close>

lemma body_eq_Continue:
  assumes "\<not> (cached c = 0 \<and> fadvise_ret it \<noteq> 0)" and "now (tv_before it) = Inr t0"
    and "\<not> (pread_ret it <s 0 \<and> pread_errno it \<noteq> EINTR)" and "now (tv_after it) = Inr t1"
    and "window_due c (record_sample (t1 - t0) (s\<lparr>request := request s + 1\<rparr>)) = Inr due"
    and "s2 = (if due then fst (flush_window c (record_sample (t1 - t0) (s\<lparr>request := request s + 1\<rparr>)))
               else record_sample (t1 - t0) (s\<lparr>request := request s + 1\<rparr>))"
    and "s3 = (if sigint_body it then sig_exit s2 else s2)"
  shows "body c s it =
     Continue s3
       ((if quiet c = 0
         then [Printf_request (pread_ret it) (path c) (fstype c) (device c) (request s + 1)
                 (fdiv (of_llong (t1 - t0)) (Fin 1000))]
         else []) @
        (if due then snd (flush_window c (record_sample (t1 - t0) (s\<lparr>request := request s + 1\<rparr>)))
         else []) @
        (if exiting s3 = 0 then [Usleep (ucast (interval c))] else []))"
  using assms by (cases due) (auto simp: body_def Let_def split_def)

lemma body_Continue_window:
  assumes "body c s it = Continue s' es"
  shows "\<exists>due. window_due c (s\<lparr>request := request s + 1\<rparr>) = Inr due \<and>
         filter raw_line es =
           (if due then [raw_stats (period c) (add_sample (this_time_of it) (part_totals s))]
            else []) \<and>
         part_totals s' =
           (if due then (Fin 0, Fin 0, LLONG_MAX, LLONG_MIN)
            else add_sample (this_time_of it) (part_totals s))"
proof -
  from assms have nf: "\<not> (cached c = 0 \<and> fadvise_ret it \<noteq> 0)"
    by (auto simp: body_def Let_def split: if_splits)
  from assms nf obtain t0 where t0: "now (tv_before it) = Inr t0"
    by (cases "now (tv_before it)") (auto simp: body_def Let_def split: if_splits)
  from assms nf t0 have nr: "\<not> (pread_ret it <s 0 \<and> pread_errno it \<noteq> EINTR)"
    by (auto simp: body_def Let_def split: if_splits)
  from assms nf t0 nr obtain t1 where t1: "now (tv_after it) = Inr t1"
    by (cases "now (tv_after it)") (auto simp: body_def Let_def split: if_splits)
  have t: "this_time_of it = t1 - t0" by (simp add: this_time_of_def t0 t1)
  let ?s1 = "record_sample (t1 - t0) (s\<lparr>request := request s + 1\<rparr>)"
  from assms nf t0 nr t1 obtain due where due: "window_due c ?s1 = Inr due"
    by (cases "window_due c ?s1") (auto simp: body_def Let_def split: if_splits)
  have w: "window_due c (s\<lparr>request := request s + 1\<rparr>) = Inr due"
    using due window_due_request [of ?s1 "s\<lparr>request := request s + 1\<rparr>" c] by simp
  have p1: "part_totals ?s1 = add_sample (this_time_of it) (part_totals s)"
    by (simp add: part_totals_record_sample t)
  let ?s2 = "if due then fst (flush_window c ?s1) else ?s1"
  let ?s3 = "if sigint_body it then sig_exit ?s2 else ?s2"
  note eq = body_eq_Continue [OF nf t0 nr t1 due refl refl]
  let ?es1 = "if quiet c = 0
         then [Printf_request (pread_ret it) (path c) (fstype c) (device c) (request s + 1)
                 (fdiv (of_llong (t1 - t0)) (Fin 1000))]
         else []"
  let ?es2 = "if due then snd (flush_window c ?s1) else []"
  let ?es3 = "if exiting ?s3 = 0 then [Usleep (ucast (interval c))] else []"
  from eq [symmetric] assms have "Continue ?s3 (?es1 @ ?es2 @ ?es3) = Continue s' es"
    by (rule trans)
  then have inj: "?s3 = s' \<and> ?es1 @ ?es2 @ ?es3 = es" by (rule step.inject(1) [THEN iffD1])
  from inj have s': "s' = ?s3" by (rule conjunct1 [THEN sym])
  from inj have es: "es = ?es1 @ ?es2 @ ?es3" by (rule conjunct2 [THEN sym])
  have "filter raw_line ?es1 = []" "filter raw_line ?es3 = []" "filter raw_line ?es2 = ?es2"
    by (simp_all add: snd_flush_window)
  then have "filter raw_line es = (if due then snd (flush_window c ?s1) else [])"
    unfolding es filter_append by simp
  then have 1: "filter raw_line es =
      (if due then [raw_stats (period c) (add_sample (this_time_of it) (part_totals s))] else [])"
    by (simp add: snd_flush_window p1)
  have 2: "part_totals s' =
      (if due then (Fin 0, Fin 0, LLONG_MAX, LLONG_MIN)
       else add_sample (this_time_of it) (part_totals s))"
    by (simp add: s' part_totals_flush_window p1)
  from w 1 2 show ?thesis by blast
qed

lemma iter_Continue_window:
  assumes "iter c s it = Continue s' es"
  shows "\<exists>due. window_due c (s\<lparr>request := request s + 1\<rparr>) = Inr due \<and>
         filter raw_line es =
           (if due then [raw_stats (period c) (add_sample (this_time_of it) (part_totals s))]
            else []) \<and>
         part_totals s' =
           (if due then (Fin 0, Fin 0, LLONG_MAX, LLONG_MIN)
            else add_sample (this_time_of it) (part_totals s))"
proof -
  let ?s = "if sigint_top it then sig_exit s else s"
  from assms have b: "body c ?s it = Continue s' es"
    by (auto simp: iter_def Let_def split: sum.splits bool.splits if_splits)
  have w: "window_due c (?s\<lparr>request := request ?s + 1\<rparr>) =
      window_due c (s\<lparr>request := request s + 1\<rparr>)"
    by (rule window_due_request) simp
  have p: "part_totals ?s = part_totals s" by simp
  from body_Continue_window [OF b] show ?thesis unfolding w p .
qed

lemma window_due_value:
  assumes "request s = of_nat k" and "k < 2 ^ 31" and "0 <s period c"
  shows "window_due c s = Inr (k mod nat (sint (period c)) = 0)"
proof -
  let ?P = "sint (period c)"
  let ?p = "nat ?P"
  have P: "0 < ?P" using assms(3) by (simp add: word_sless_alt)
  then have p0: "period c \<noteq> 0" by auto
  have "sint (- 1 :: cint) = - 1" by simp
  with P have p1: "period c \<noteq> - 1" by auto
  have k: "sint (request s) = int k" using assms(1,2) by (simp add: sint_of_nat_small)
  have "int k smod ?P = int k mod ?P"
    using P by (cases "k = 0") (simp_all add: signed_modulo_int_def)
  also have "\<dots> = int (k mod ?p)" using P by (simp add: zmod_int)
  finally have r: "sint (request s) smod ?P = int (k mod ?p)" by (simp add: k)
  have "k mod ?p \<le> k" by (rule mod_less_eq_dividend)
  then have m: "k mod ?p < 2 ^ 31" using assms(2) by (rule le_less_trans)
  have z: "(word_of_nat (k mod ?p) :: cint) = 0 \<longleftrightarrow> k mod ?p = 0"
    using unat_of_nat_small [OF m] by (auto simp: unat_0_iff [symmetric] simp del: unat_0_iff)
  have "c_rem (request s) (period c) = Inr (word_of_nat (k mod ?p))"
    using p0 p1 r by (simp add: c_rem_def)
  then show ?thesis using p0 z by (simp add: window_due_def)
qed

lemma advance_snoc:
  "advance c s (pre @ [it]) = Some (s2, out) \<Longrightarrow>
   \<exists>s1 es es2. advance c s pre = Some (s1, es) \<and> iter c s1 it = Continue s2 es2 \<and>
     out = es @ es2"
proof (induction pre arbitrary: s out)
  case Nil
  then show ?case by (cases "iter c s it") auto
next
  case (Cons x pre)
  from Cons.prems obtain sx esx out' where x: "iter c s x = Continue sx esx"
    and a: "advance c sx (pre @ [it]) = Some (s2, out')" and out: "out = esx @ out'"
    by (cases "iter c s x") (auto split: option.splits)
  from Cons.IH [OF a] obtain s1 es es2 where
    "advance c sx pre = Some (s1, es)" "iter c s1 it = Continue s2 es2" "out' = es @ es2"
    by blast
  with x out show ?case by simp
qed

lemma Suc_mod_eq_0:
  assumes "Suc n mod p = 0" and "0 < p"
  shows "Suc (n mod p) = p"
  using assms mod_Suc [of n p] by (simp split: if_splits)

lemma advance_window:
  assumes "0 <s period c"
  shows "advance c (init t) pre = Some (s, out) \<Longrightarrow> length pre < 2 ^ 31 \<Longrightarrow>
     part_totals s =
       fold add_sample (window_of (nat (sint (period c))) (map this_time_of pre))
         (Fin 0, Fin 0, LLONG_MAX, LLONG_MIN)"
proof (induction pre arbitrary: s out rule: rev_induct)
  case Nil
  then show ?case by (auto simp: part_totals_init)
next
  case (snoc it pre)
  let ?p = "nat (sint (period c))"
  have p: "0 < ?p" using assms by (simp add: word_sless_alt)
  from advance_snoc [OF snoc.prems(1)] obtain s1 es es2 where
    a: "advance c (init t) pre = Some (s1, es)" and i: "iter c s1 it = Continue s es2"
    by blast
  have len: "length pre < 2 ^ 31" "Suc (length pre) < 2 ^ 31" using snoc.prems(2) by simp_all
  note IH = snoc.IH [OF a len(1)]
  have r: "request (s1\<lparr>request := request s1 + 1\<rparr>) = of_nat (Suc (length pre))"
    using advance_request [OF a] by (simp add: init_def)
  note w = window_due_value [OF r len(2) assms]
  from iter_Continue_window [OF i] w have
    "part_totals s =
       (if Suc (length pre) mod ?p = 0 then (Fin 0, Fin 0, LLONG_MAX, LLONG_MIN)
        else add_sample (this_time_of it) (part_totals s1))"
    by auto
  then show ?case
    using IH by (simp add: window_of_snoc [OF p])
qed

lemma raw_stats_window:
  assumes "ws \<noteq> []" and "sint n = int (length ws)" and "list_all square_fits ws"
  shows "\<exists>mn mx. raw_stats n (fold add_sample ws (Fin 0, Fin 0, LLONG_MAX, LLONG_MIN)) =
       Printf_raw mn (Fin (mean (map usec ws))) mx (Fin (population_sd (map usec ws))) \<and>
     sint mn = Min (sint ` set ws) \<and> sint mx = Max (sint ` set ws)"
proof -
  from fold_add_sample [of ws 0 0 LLONG_MAX LLONG_MIN] obtain mn mx where
    f: "fold add_sample ws (Fin 0, Fin 0, LLONG_MAX, LLONG_MIN) =
       (Fin (\<Sum>t\<leftarrow>ws. real_of_int (sint t)), Fin (\<Sum>t\<leftarrow>ws. real_of_int (sint (t * t))), mn, mx)"
    and mn: "sint mn = Min (insert (sint LLONG_MAX) (sint ` set ws))"
    and mx: "sint mx = Max (insert (sint LLONG_MIN) (sint ` set ws))"
    by auto
  have ne: "map usec ws \<noteq> []" using assms(1) by simp
  have n: "of_cint n = Fin (real (length (map usec ws)))"
    using assms(2) by (simp add: of_cint_def)
  have avg: "fdiv (Fin (sum_list (map usec ws))) (of_cint n) = Fin (mean (map usec ws))"
    unfolding n mean_def using ne by simp
  have "raw_stats n (fold add_sample ws (Fin 0, Fin 0, LLONG_MAX, LLONG_MIN)) =
       Printf_raw mn (Fin (mean (map usec ws))) mx (Fin (population_sd (map usec ws)))"
    unfolding f raw_stats.simps sum_list_squares [OF assms(3)] sum_list_usec avg
    unfolding n using fsqrt_variance [OF ne] by simp
  moreover have "sint mn = Min (sint ` set ws)"
    using mn by (simp only: Min_insert_LLONG_MAX [OF assms(1)])
  moreover have "sint mx = Max (sint ` set ws)"
    using mx by (simp only: Max_insert_LLONG_MIN [OF assms(1)])
  ultimately show ?thesis by blast
qed

text \<open>When the number of passes is a multiple of a positive period, the last raw line
  printed reports the last \<open>period\<close> samples.\<close>

lemma flushed_window_stats:
  assumes "advance c (init t) its = Some (s, out)" and "0 <s period c"
    and "its \<noteq> []" and "length its < 2 ^ 31"
    and "length its mod nat (sint (period c)) = 0"
    and "ws = drop (length its - nat (sint (period c))) (map this_time_of its)"
    and "list_all square_fits ws"
  shows "\<exists>es mn mx. filter raw_line out =
       es @ [Printf_raw mn (Fin (mean (map usec ws))) mx (Fin (population_sd (map usec ws)))] \<and>
     length ws = nat (sint (period c)) \<and>
     sint mn = Min (sint ` set ws) \<and> sint mx = Max (sint ` set ws)"
proof -
  let ?p = "nat (sint (period c))"
  have p: "0 < ?p" using assms(2) by (simp add: word_sless_alt)
  from assms(3) obtain pre it where its: "its = pre @ [it]" by (cases its rule: rev_cases) auto
  let ?n = "length pre"
  have len: "?n < 2 ^ 31" "Suc ?n < 2 ^ 31" using assms(4) its by simp_all
  have m0: "Suc ?n mod ?p = 0" using assms(5) its by simp
  have np: "Suc (?n mod ?p) = ?p" using m0 p by (rule Suc_mod_eq_0)
  from advance_snoc [OF assms(1) [unfolded its]] obtain s1 es es2 where
    a: "advance c (init t) pre = Some (s1, es)" and i: "iter c s1 it = Continue s es2"
    and out: "out = es @ es2"
    by blast
  have r: "request (s1\<lparr>request := request s1 + 1\<rparr>) = of_nat (Suc ?n)"
    using advance_request [OF a] by (simp add: init_def)
  note w = window_due_value [OF r len(2) assms(2)]
  let ?w = "window_of ?p (map this_time_of pre) @ [this_time_of it]"
  from iter_Continue_window [OF i] w m0 have
    "filter raw_line es2 = [raw_stats (period c) (add_sample (this_time_of it) (part_totals s1))]"
    by auto
  then have es2: "filter raw_line es2 =
      [raw_stats (period c) (fold add_sample ?w (Fin 0, Fin 0, LLONG_MAX, LLONG_MIN))]"
    by (simp add: advance_window [OF assms(2) a len(1)])
  have "?n mod ?p \<le> ?n" by (rule mod_less_eq_dividend)
  then have d: "Suc ?n - ?p = ?n - ?n mod ?p" "?n - ?n mod ?p \<le> ?n" using np by simp_all
  have ws: "ws = ?w"
    unfolding assms(6) its using d by (simp add: window_of_def)
  have lw: "length ws = ?p" unfolding ws using np by (simp add: length_window_of)
  have ne: "ws \<noteq> []" using lw p by auto
  have sp: "sint (period c) = int (length ws)" using lw p by simp
  from raw_stats_window [OF ne sp assms(7)] obtain mn mx where
    "raw_stats (period c) (fold add_sample ws (Fin 0, Fin 0, LLONG_MAX, LLONG_MIN)) =
       Printf_raw mn (Fin (mean (map usec ws))) mx (Fin (population_sd (map usec ws)))"
    "sint mn = Min (sint ` set ws)" "sint mx = Max (sint ` set ws)"
    by blast
  with es2 out lw ws show ?thesis by simp
qed

subsection \<open>Rounding to binary64\<close>

lemma pow2_pos [simp]: "0 < pow2 e"
  by (simp add: pow2_def)

lemma pow2_neq_0 [simp]: "pow2 e \<noteq> 0"
  by (simp add: pow2_def)

lemma pow2_abs [simp]: "\<bar>pow2 e\<bar> = pow2 e"
  using pow2_pos [of e] by linarith

lemma pow2_powr: "pow2 e = 2 powr real_of_int e"
  by (simp add: pow2_def powr_int)

lemma pow2_add: "pow2 (a + b) = pow2 a * pow2 b"
  by (simp add: pow2_powr powr_add)

lemma pow2_nat: "pow2 (int n) = 2 ^ n"
  by (simp add: pow2_def)

lemma pow2_mono: "a \<le> b \<Longrightarrow> pow2 a \<le> pow2 b"
  by (simp add: pow2_powr)

lemma pow2_minus: "pow2 (- e) = 1 / pow2 e"
  by (simp add: pow2_powr powr_minus_divide)

lemma round_even_of_int [simp]: "round_even (of_int n) = n"
  by (simp add: round_even_def)


lemma exponent_exists:
  assumes "x \<noteq> 0"
  shows "pow2 \<lfloor>log 2 \<bar>x\<bar>\<rfloor> \<le> \<bar>x\<bar> \<and> \<bar>x\<bar> < pow2 (\<lfloor>log 2 \<bar>x\<bar>\<rfloor> + 1)"
proof -
  have "0 < \<bar>x\<bar>" using assms by simp
  from floor_log_eq_powr_iff [OF this, of 2 "\<lfloor>log 2 \<bar>x\<bar>\<rfloor>"] show ?thesis
    by (simp add: pow2_powr)
qed

lemma ulp_exp_eq:
  assumes "pow2 k \<le> \<bar>x\<bar>" and "\<bar>x\<bar> < pow2 (k + 1)"
  shows "ulp_exp x = max (k - 52) (- 1074)"
proof -
  have "0 < \<bar>x\<bar>" using assms(1) pow2_pos [of k] by linarith
  from floor_log_eq_powr_iff [OF this, of 2 k] assms have "\<lfloor>log 2 \<bar>x\<bar>\<rfloor> = k"
    by (simp add: pow2_powr)
  then show ?thesis by (simp add: ulp_exp_def)
qed

lemma rnd_eq:
  assumes "pow2 k \<le> \<bar>x\<bar>" and "\<bar>x\<bar> < pow2 (k + 1)"
  shows "rnd x = of_int (round_even (x / pow2 (max (k - 52) (- 1074)))) *
                 pow2 (max (k - 52) (- 1074))"
proof -
  have "0 < \<bar>x\<bar>" using assms(1) pow2_pos [of k] by linarith
  then have "x \<noteq> 0" by simp
  then show ?thesis by (simp add: rnd_def ulp_exp_eq [OF assms])
qed

lemma rnd_exact:
  assumes "pow2 k \<le> \<bar>x\<bar>" and "\<bar>x\<bar> < pow2 (k + 1)"
    and "x / pow2 (max (k - 52) (- 1074)) = of_int m"
  shows "rnd x = x"
proof -
  have "rnd x = of_int m * pow2 (max (k - 52) (- 1074))"
    unfolding rnd_eq [OF assms(1,2)] assms(3) by simp
  also have "\<dots> = x" using assms(3) by (simp add: field_simps)
  finally show ?thesis .
qed

lemma rnd_of_int:
  assumes "\<bar>n\<bar> \<le> 2 ^ 53"
  shows "rnd (of_int n) = of_int n"
proof (cases "n = 0")
  case True
  then show ?thesis by (simp add: rnd_def)
next
  case False
  let ?x = "real_of_int n"
  define k where "k = \<lfloor>log 2 \<bar>?x\<bar>\<rfloor>"
  have x0: "?x \<noteq> 0" using False by simp
  from exponent_exists [OF x0] have lo: "pow2 k \<le> \<bar>?x\<bar>" and hi: "\<bar>?x\<bar> < pow2 (k + 1)"
    by (simp_all add: k_def)
  have x1: "1 \<le> \<bar>?x\<bar>" using False by (simp flip: of_int_abs)
  have x53: "\<bar>?x\<bar> \<le> 2 ^ 53"
  proof -
    have "real_of_int \<bar>n\<bar> \<le> real_of_int (2 ^ 53)" using assms by (simp only: of_int_le_iff)
    then show ?thesis by simp
  qed
  have k0: "0 \<le> k"
  proof (rule ccontr)
    assume "\<not> 0 \<le> k"
    then have "k + 1 \<le> 0" by simp
    then have "pow2 (k + 1) \<le> pow2 0" by (rule pow2_mono)
    with hi x1 show False by (simp add: pow2_def)
  qed
  have k53: "k \<le> 53"
  proof (rule ccontr)
    assume "\<not> k \<le> 53"
    then have "54 \<le> k" by simp
    then have "pow2 54 \<le> pow2 k" by (rule pow2_mono)
    with lo x53 show False by (simp add: pow2_def)
  qed
  show ?thesis
  proof (cases "k \<le> 52")
    case True
    have m: "max (k - 52) (- 1074) = - (52 - k)" using k0 by simp
    have "?x / pow2 (- (52 - k)) = ?x * pow2 (52 - k)" unfolding pow2_minus by simp
    also have "\<dots> = ?x * 2 ^ nat (52 - k)" using True by (simp add: pow2_def)
    also have "\<dots> = of_int (n * 2 ^ nat (52 - k))" by simp
    finally have "?x / pow2 (max (k - 52) (- 1074)) = of_int (n * 2 ^ nat (52 - k))"
      unfolding m .
    with lo hi show ?thesis by (rule rnd_exact)
  next
    case False
    with k53 have k: "k = 53" by simp
    have "2 ^ 53 \<le> \<bar>?x\<bar>" using lo by (simp add: k pow2_def)
    with x53 have "\<bar>?x\<bar> = 2 ^ 53" by simp
    then have "real_of_int \<bar>n\<bar> = real_of_int (2 ^ 53)" by simp
    then have "\<bar>n\<bar> = 2 ^ 53" by (simp only: of_int_eq_iff)
    then have "even n" by (cases "0 \<le> n") (simp_all add: abs_if split: if_splits, presburger+)
    then obtain j where j: "n = 2 * j" by (elim evenE)
    have "?x / pow2 (max (k - 52) (- 1074)) = of_int j" by (simp add: k pow2_def j)
    with lo hi show ?thesis by (rule rnd_exact)
  qed
qed

lemma to_double_of_int:
  assumes "\<bar>n\<bar> \<le> 2 ^ 53"
  shows "to_double (of_int n) = Fin (of_int n)"
proof -
  have "real_of_int \<bar>n\<bar> \<le> real_of_int (2 ^ 53)" using assms by (simp only: of_int_le_iff)
  then have "\<bar>real_of_int n\<bar> \<le> 2 ^ 53" by simp
  also have "(2::real) ^ 53 < 2 ^ 1024" by simp
  finally show ?thesis by (simp add: to_double_def rnd_of_int [OF assms])
qed




lemma to_double_0 [simp]: "to_double 0 = Fin 0"
  using to_double_of_int [of 0] by simp






lemma exact_sums_frame [simp]:
  "exact_sums (s\<lparr>request := n\<rparr>) K = exact_sums s K"
  "exact_sums (s\<lparr>time_total := t\<rparr>) K = exact_sums s K"
  "exact_sums (s\<lparr>exiting := x\<rparr>) K = exact_sums s K"
  "exact_sums (sig_exit s) K = exact_sums s K"
  by (simp_all add: exact_sums_def sig_exit_def)

















lemma agree_outcome_emit [simp]:
  "agree_outcome K (emit es x) (emit es' y) = agree_outcome K x y"
  by (cases x; cases y) simp_all

lemma sum_squares_simps [simp]:
  "sum_squares [] = 0"
  "sum_squares (it # its) = (sint (this_time_of it))\<^sup>2 + sum_squares its"
  by (simp_all add: sum_squares_def)







subsection \<open>The window period and the statistics of a binary64 run\<close>























subsection \<open>The standard deviation in binary64\<close>










lemma raw_line_raw_stats64 [simp]: "raw_line (raw_stats64 n x)"
  by (cases x) simp

lemma part_totals_exiting [simp]: "part_totals (s\<lparr>exiting := x\<rparr>) = part_totals s"
  by (simp add: part_totals_def)


























lemma check_stop_False:
  assumes "check_stop c (if sigint_top it then sig_exit s else s) it = Inr False"
  shows "\<not> sigint_top it" and "exiting s = 0"
  using assms by (auto simp: check_stop_def sig_exit_def split: if_splits)

lemma finalize_totals:
  assumes "finalize c s g = Done st es"
  shows "(time_sum (locals st), time_sum2 (locals st), time_min (locals st),
          time_max (locals st)) = totals s"
    and "request (locals st) = request s" and "es = report c st"
proof -
  from assms obtain t where t: "now g = Inr t"
    by (cases "now g") (simp_all add: finalize_def)
  from assms have l: "locals st = absorb_part (s\<lparr>time_total := t - time_total s\<rparr>)"
    and es: "es = report c st"
    unfolding finalize_Inr [OF t] Let_def by auto
  have "totals (s\<lparr>time_total := t - time_total s\<rparr>) = totals s"
    by (rule totals_time_total_update)
  then show "(time_sum (locals st), time_sum2 (locals st), time_min (locals st),
          time_max (locals st)) = totals s"
    unfolding l by (simp add: totals_def Let_def)
  show "request (locals st) = request s" unfolding l by simp
  show "es = report c st" by (rule es)
qed

lemma finalize_returns:
  assumes "now g = Inr t"
  shows "\<exists>st. finalize c s g = Done st (report c st)"
  unfolding finalize_Inr [OF assms] Let_def by blast

theorem interrupted_read_is_recorded:
  assumes "now (clock_start e) = Inr t" and "now (clock_end e) = Inr t'"
    and "iters e = pre @ it # it2 # post"
    and "advance c (init t) pre = Some (s, out)"
    and "check_stop c (if sigint_top it then sig_exit s else s) it = Inr False"
    and "cached c \<noteq> 0 \<or> fadvise_ret it = 0"
    and "now (tv_before it) = Inr t0" and "now (tv_after it) = Inr t1"
    and "pread_ret it <s 0" and "pread_errno it = EINTR"
    and "\<not> (request s + 1 = INT_MIN \<and> period c = - 1)"
  shows "\<exists>s' es. iter c s it = Continue s' es \<and>
     request s' = request s + 1 \<and>
     totals s' = add_sample (t1 - t0) (totals s) \<and>
     exiting s' = (if sigint_body it then 1 else 0) \<and>
     (\<exists>es'. iter c s (it\<lparr>pread_ret := 512, pread_errno := 0\<rparr>) = Continue s' es') \<and>
     main c e =
       (case iter c s' it2 of
          Break sf \<Rightarrow> Some (emit (out @ es) (finalize c sf (clock_end e)))
        | Fatal f es2 \<Rightarrow> Some (Died f (out @ es @ es2))
        | Continue s2 es2 \<Rightarrow>
            (case loop c s2 post of
               None \<Rightarrow> None
             | Some (Died f es3) \<Rightarrow> Some (Died f (out @ es @ es2 @ es3))
             | Some (Done sf es3) \<Rightarrow>
                 Some (emit (out @ es @ es2 @ es3) (finalize c sf (clock_end e))))) \<and>
     (check_stop c (if sigint_top it2 then sig_exit s' else s') it2 = Inr False \<longrightarrow>
        iter c s' it2 = body c s' it2 \<and>
        (\<forall>s2 es2. iter c s' it2 = Continue s2 es2 \<longrightarrow> request s2 = request s + 2)) \<and>
     (sigint_body it \<longrightarrow>
        (\<exists>st. main c e = Some (Done st (out @ es @ report c st)) \<and>
           request (locals st) = request s + 1 \<and>
           (time_sum (locals st), time_sum2 (locals st), time_min (locals st),
            time_max (locals st)) = add_sample (t1 - t0) (totals s)))"
proof -
  let ?s = "if sigint_top it then sig_exit s else s"
  let ?ok = "it\<lparr>pread_ret := 512, pread_errno := 0\<rparr>"
  note cs = check_stop_False [OF assms(5)]
  have s: "?s = s" using cs(1) by simp
  have nf: "\<not> (pread_ret it <s 0 \<and> pread_errno it \<noteq> EINTR)" using assms(10) by simp
  define s' where "s' =
       (let s1 = record_sample (t1 - t0) (s\<lparr>request := request s + 1\<rparr>);
            s2 = (if window_due c s1 = Inr True then fst (flush_window c s1) else s1)
        in if sigint_body it then sig_exit s2 else s2)"
  from body_read_not_fatal [OF assms(6,7,8) nf assms(11)] obtain es where
    b: "body c s it = Continue s' es" unfolding s'_def by blast
  have i: "iter c s it = Continue s' es"
    using assms(5) b unfolding s by (simp add: iter_def Let_def cs(1))
  have ok: "cached c \<noteq> 0 \<or> fadvise_ret ?ok = 0" "now (tv_before ?ok) = Inr t0"
    "now (tv_after ?ok) = Inr t1" "\<not> (pread_ret ?ok <s 0 \<and> pread_errno ?ok \<noteq> EINTR)"
    using assms(6,7,8) by (simp_all add: word_sless_alt)
  from body_read_not_fatal [OF ok assms(11)] obtain es' where
    b': "body c s ?ok = Continue s' es'" unfolding s'_def by auto
  have "check_stop c s ?ok = check_stop c s it" by (simp add: check_stop_def)
  with assms(5) have cs': "check_stop c s ?ok = Inr False" unfolding s by simp
  have i': "iter c s ?ok = Continue s' es'"
    using cs' b' cs(1) by (simp add: iter_def Let_def)
  have r: "request s' = request s + 1" using iter_Continue(2) [OF i] .
  have tot: "totals s' = add_sample (t1 - t0) (totals s)"
    using iter_Continue(1) [OF i] assms(7,8) by (simp add: this_time_of_def)
  have ex: "exiting s' = (if sigint_body it then 1 else 0)"
    using body_exiting [OF b] cs(2) by simp
  have l1: "loop c (init t) (iters e) = map_option (emit out) (loop c s (it # it2 # post))"
    unfolding assms(3) using assms(4) by (rule loop_advance)
  have l2: "loop c s (it # it2 # post) = map_option (emit es) (loop c s' (it2 # post))"
    using i by simp
  have ee: "emit out (emit es x) = emit (out @ es) x" for x :: "vars outcome"
    by (cases x) simp_all
  have L: "loop c (init t) (iters e) = map_option (emit (out @ es)) (loop c s' (it2 # post))"
    unfolding l1 l2 by (cases "loop c s' (it2 # post)") (simp_all add: ee)
  have m: "main c e =
       (case iter c s' it2 of
          Break sf \<Rightarrow> Some (emit (out @ es) (finalize c sf (clock_end e)))
        | Fatal f es2 \<Rightarrow> Some (Died f (out @ es @ es2))
        | Continue s2 es2 \<Rightarrow>
            (case loop c s2 post of
               None \<Rightarrow> None
             | Some (Died f es3) \<Rightarrow> Some (Died f (out @ es @ es2 @ es3))
             | Some (Done sf es3) \<Rightarrow>
                 Some (emit (out @ es @ es2 @ es3) (finalize c sf (clock_end e)))))"
  proof (cases "iter c s' it2")
    case (Continue s2 es2)
    show ?thesis
    proof (cases "loop c s2 post")
      case None
      then show ?thesis using Continue by (simp add: main_def assms(1) L)
    next
      case (Some x)
      then show ?thesis using Continue
        by (cases x) (simp_all add: main_def assms(1) L)
    qed
  next
    case (Break sf)
    then show ?thesis by (simp add: main_def assms(1) L)
  next
    case (Fatal f es2)
    then show ?thesis by (simp add: main_def assms(1) L)
  qed
  have nx: "check_stop c (if sigint_top it2 then sig_exit s' else s') it2 = Inr False \<longrightarrow>
        iter c s' it2 = body c s' it2 \<and>
        (\<forall>s2 es2. iter c s' it2 = Continue s2 es2 \<longrightarrow> request s2 = request s + 2)"
  proof (intro impI conjI allI)
    assume a: "check_stop c (if sigint_top it2 then sig_exit s' else s') it2 = Inr False"
    note c2 = check_stop_False [OF a]
    show "iter c s' it2 = body c s' it2" using a c2(1) by (simp add: iter_def Let_def)
    fix s2 es2 assume "iter c s' it2 = Continue s2 es2"
    from iter_Continue(2) [OF this] r show "request s2 = request s + 2" by simp
  qed
  have sg: "sigint_body it \<longrightarrow>
        (\<exists>st. main c e = Some (Done st (out @ es @ report c st)) \<and>
           request (locals st) = request s + 1 \<and>
           (time_sum (locals st), time_sum2 (locals st), time_min (locals st),
            time_max (locals st)) = add_sample (t1 - t0) (totals s))"
  proof
    assume sb: "sigint_body it"
    let ?sf = "if sigint_top it2 then sig_exit s' else s'"
    have "exiting ?sf \<noteq> 0" using ex sb by simp
    then have "check_stop c ?sf it2 = Inr True" by (simp add: check_stop_def)
    then have br: "iter c s' it2 = Break ?sf" by (simp add: iter_def Let_def)
    from finalize_returns [OF assms(2)] obtain st where
      f: "finalize c ?sf (clock_end e) = Done st (report c st)" by blast
    have "main c e = Some (Done st (out @ es @ report c st))"
      unfolding m br using f by simp
    moreover have "request (locals st) = request s + 1"
      using finalize_totals(2) [OF f] iter_Break(2) [OF br] r by simp
    moreover have "(time_sum (locals st), time_sum2 (locals st), time_min (locals st),
            time_max (locals st)) = add_sample (t1 - t0) (totals s)"
      using finalize_totals(1) [OF f] iter_Break(1) [OF br] tot by simp
    ultimately show "\<exists>st. main c e = Some (Done st (out @ es @ report c st)) \<and>
           request (locals st) = request s + 1 \<and>
           (time_sum (locals st), time_sum2 (locals st), time_min (locals st),
            time_max (locals st)) = add_sample (t1 - t0) (totals s)" by blast
  qed
  from i r tot ex i' m nx sg show ?thesis by blast
qed

lemma main_eintr: "main fixture_config eintr_env = Some (Done fixture_final eintr_out)"
  by (simp add: fixture_config_def eintr_env_def eintr_read_def fixture_iteration_def
        fixture_final_def eintr_out_def run_defs)

lemma eintr_read_facts:
  "check_stop fixture_config (if sigint_top eintr_read then sig_exit one_sample else one_sample)
     eintr_read = Inr False"
  "fadvise_ret eintr_read = 0"
  "now (tv_before eintr_read) = Inr 200" "now (tv_after eintr_read) = Inr 220"
  "pread_ret eintr_read <s 0" "pread_errno eintr_read = EINTR"
  "sigint_body eintr_read = False"
  by (simp_all add: one_sample_def eintr_read_def fixture_iteration_def fixture_config_def
        check_stop_def word_sle_eq now_def EINTR_def word_sless_alt)

lemma interrupted_read_facts:
  "fadvise_ret interrupted_read = 0"
  "now (tv_before interrupted_read) = Inr 200" "now (tv_after interrupted_read) = Inr 220"
  "pread_ret interrupted_read <s 0" "pread_errno interrupted_read = EINTR"
  "sigint_body interrupted_read = True"
  by (simp_all add: interrupted_read_def fixture_iteration_def now_def EINTR_def word_sless_alt)

lemma add_sample_one_sample:
  "add_sample (220 - 200) (totals one_sample) = (Fin 30, Fin 500, 10, 20)"
  by (simp add: totals_def one_sample_def absorb_part_def Let_def of_llong_def
        LLONG_MAX_def LLONG_MIN_def word_sless_alt)

text \<open>Two runs whose first sample was 10 microseconds and whose second read is
  interrupted after 20 microseconds. In the first the signal is not SIGINT: the third
  request is issued and the run of three requests returns with the statistics of 10, 20
  and 30. In the second SIGINT interrupts the read: the next test leaves the loop and the
  summary counts two requests.\<close>

theorem interrupted_read_is_recorded_witness:
  "now (clock_start eintr_env) = Inr 0 \<and> now (clock_end eintr_env) = Inr 500 \<and>
   iters eintr_env = [fixture_iteration 100 110] @ eintr_read # fixture_iteration 300 330 #
     [fixture_iteration 400 440] \<and>
   advance fixture_config (init 0) [fixture_iteration 100 110] = Some (one_sample, one_sample_out) \<and>
   check_stop fixture_config (if sigint_top eintr_read then sig_exit one_sample else one_sample)
     eintr_read = Inr False \<and>
   fadvise_ret eintr_read = 0 \<and>
   now (tv_before eintr_read) = Inr 200 \<and> now (tv_after eintr_read) = Inr 220 \<and>
   pread_ret eintr_read <s 0 \<and> pread_errno eintr_read = EINTR \<and>
   request one_sample + 1 \<noteq> INT_MIN \<and> sigint_body eintr_read = False \<and>
   (\<exists>s' es. iter fixture_config one_sample eintr_read = Continue s' es \<and>
      request s' = 2 \<and> totals s' = (Fin 30, Fin 500, 10, 20) \<and> exiting s' = 0 \<and>
      check_stop fixture_config
        (if sigint_top (fixture_iteration 300 330) then sig_exit s' else s')
        (fixture_iteration 300 330) = Inr False \<and>
      iter fixture_config s' (fixture_iteration 300 330) =
        body fixture_config s' (fixture_iteration 300 330) \<and>
      (\<exists>s2 es2. iter fixture_config s' (fixture_iteration 300 330) = Continue s2 es2 \<and>
         request s2 = 3)) \<and>
   main fixture_config eintr_env = Some (Done fixture_final eintr_out) \<and>
   request (locals fixture_final) = 3 \<and>
   check_stop fixture_config
     (if sigint_top interrupted_read then sig_exit one_sample else one_sample)
     interrupted_read = Inr False \<and>
   pread_ret interrupted_read <s 0 \<and> pread_errno interrupted_read = EINTR \<and>
   sigint_body interrupted_read = True \<and>
   (\<exists>st es. main fixture_config
        (eintr_env\<lparr>iters := [fixture_iteration 100 110] @ interrupted_read #
           fixture_iteration 300 330 # [fixture_iteration 400 440]\<rparr>) =
        Some (Done st (one_sample_out @ es @ report fixture_config st)) \<and>
      request (locals st) = 2 \<and>
      (time_sum (locals st), time_sum2 (locals st), time_min (locals st),
       time_max (locals st)) = (Fin 30, Fin 500, 10, 20))"
proof -
  let ?it2 = "fixture_iteration 300 330"
  let ?e2 = "eintr_env\<lparr>iters := [fixture_iteration 100 110] @ interrupted_read #
           fixture_iteration 300 330 # [fixture_iteration 400 440]\<rparr>"
  have e1: "now (clock_start eintr_env) = Inr 0" and e2: "now (clock_end eintr_env) = Inr 500"
    and e3: "iters eintr_env = [fixture_iteration 100 110] @ eintr_read # ?it2 #
     [fixture_iteration 400 440]"
    by (simp_all add: eintr_env_def now_def)
  have f1: "now (clock_start ?e2) = Inr 0" and f2: "now (clock_end ?e2) = Inr 500"
    and f3: "iters ?e2 = [fixture_iteration 100 110] @ interrupted_read # ?it2 #
     [fixture_iteration 400 440]"
    by (simp_all add: eintr_env_def now_def)
  note h = eintr_read_facts and g = interrupted_read_facts
  have h2: "cached fixture_config \<noteq> 0 \<or> fadvise_ret eintr_read = 0" using h(2) by simp
  have g2: "cached fixture_config \<noteq> 0 \<or> fadvise_ret interrupted_read = 0" using g(1) by simp
  have n': "request one_sample + 1 \<noteq> INT_MIN" by (simp add: one_sample_def INT_MIN_def)
  then have n: "\<not> (request one_sample + 1 = INT_MIN \<and> period fixture_config = - 1)" by simp
  have r: "request one_sample + 1 = 2" "request one_sample + 2 = 3"
    by (simp_all add: one_sample_def)
  note t = add_sample_one_sample
  from interrupted_read_is_recorded [OF e1 e2 e3 advance_fixture_1 h(1) h2 h(3) h(4) h(5) h(6) n]
  obtain s' es where i: "iter fixture_config one_sample eintr_read = Continue s' es"
    and s': "request s' = 2" "totals s' = (Fin 30, Fin 500, 10, 20)" "exiting s' = 0"
    and nx: "check_stop fixture_config (if sigint_top ?it2 then sig_exit s' else s') ?it2 =
        Inr False \<longrightarrow>
        iter fixture_config s' ?it2 = body fixture_config s' ?it2 \<and>
        (\<forall>s2 es2. iter fixture_config s' ?it2 = Continue s2 es2 \<longrightarrow> request s2 = 3)"
    unfolding t r h(7) by auto
  have c2: "check_stop fixture_config (if sigint_top ?it2 then sig_exit s' else s') ?it2 =
        Inr False"
    using s'(1,3) by (simp add: check_stop_def fixture_config_def fixture_iteration_def word_sle_eq)
  with nx have b2: "iter fixture_config s' ?it2 = body fixture_config s' ?it2"
    and r2: "\<And>s2 es2. iter fixture_config s' ?it2 = Continue s2 es2 \<Longrightarrow> request s2 = 3"
    by blast+
  have "\<exists>es2. body fixture_config s' ?it2 = Continue
       (let s1 = record_sample (330 - 300) (s'\<lparr>request := request s' + 1\<rparr>);
            s2 = (if window_due fixture_config s1 = Inr True
                  then fst (flush_window fixture_config s1) else s1)
        in if sigint_body ?it2 then sig_exit s2 else s2) es2 \<and>
     (quiet fixture_config = 0 \<longrightarrow>
        Printf_request (pread_ret ?it2) (path fixture_config) (fstype fixture_config)
          (device fixture_config) (request s' + 1)
          (fdiv (of_llong (330 - 300)) (Fin 1000)) \<in> set es2)"
    by (rule body_read_not_fatal)
       (simp_all add: fixture_iteration_def now_def s'(1) INT_MIN_def word_sless_alt)
  then obtain s2 es2 where "iter fixture_config s' ?it2 = Continue s2 es2"
    unfolding b2 by blast
  with r2 have k: "\<exists>s2 es2. iter fixture_config s' ?it2 = Continue s2 es2 \<and> request s2 = 3"
    by blast
  have W1: "\<exists>s' es. iter fixture_config one_sample eintr_read = Continue s' es \<and>
      request s' = 2 \<and> totals s' = (Fin 30, Fin 500, 10, 20) \<and> exiting s' = 0 \<and>
      check_stop fixture_config (if sigint_top ?it2 then sig_exit s' else s') ?it2 = Inr False \<and>
      iter fixture_config s' ?it2 = body fixture_config s' ?it2 \<and>
      (\<exists>s2 es2. iter fixture_config s' ?it2 = Continue s2 es2 \<and> request s2 = 3)"
    using i s' c2 b2 k by blast
  from interrupted_read_is_recorded [OF f1 f2 f3 advance_fixture_1 check_stop_interrupted_read
      g2 g(2) g(3) g(4) g(5) n]
  have W2: "\<exists>st es. main fixture_config ?e2 =
        Some (Done st (one_sample_out @ es @ report fixture_config st)) \<and>
      request (locals st) = 2 \<and>
      (time_sum (locals st), time_sum2 (locals st), time_min (locals st),
       time_max (locals st)) = (Fin 30, Fin 500, 10, 20)"
    unfolding t r g(6) by blast
  have r3: "request (locals fixture_final) = 3" by (simp add: fixture_final_def)
  from e1 e2 e3 advance_fixture_1 h(1) h(2) h(3) h(4) h(5) h(6) n' h(7) W1 main_eintr r3
    check_stop_interrupted_read g(4) g(5) g(6) W2
  show ?thesis by (intro conjI)
qed

end
